theory Spec2Isabelle
  imports Complex_Main "HOL-Library.Log_Nat" "HOL-Library.Word"
begin

unbundle bit_operations_syntax

section \<open>JavaScript numbers: the binary64 operations the service uses\<close>

text \<open>
  The generator of \<^verbatim>\<open>steganographyService.js\<close> computes with JavaScript numbers, that is
  IEEE 754 binary64 values under round-to-nearest, ties-to-even. A finite double is
  modelled exactly, as a mantissa and a binary exponent: \<open>Double m e\<close> stands for
  \<open>m * 2 ^ e\<close>. Every operation computes the exact result on integers and rounds it
  once to 53 significant bits (fewer below \<open>2 ^ -1022\<close>, the subnormal range), as the
  standard prescribes. Infinities and NaN are not modelled: no value of the program
  leaves the interval from 0 to \<open>2 ^ 53\<close> times an image dimension.
\<close>

datatype double = Double (mant: int) (expo: int)

definition round_half_even :: "int \<Rightarrow> nat \<Rightarrow> int" where
  "round_half_even p k =
     (if k = 0 then p
      else let q = p div 2 ^ k; r = p mod 2 ^ k; h = 2 ^ (k - 1)
           in if r < h then q else if h < r then q + 1 else if even q then q else q + 1)"

definition round_double :: "int \<Rightarrow> int \<Rightarrow> double" where
  "round_double p e =
     (let k = max (bitlen \<bar>p\<bar> - 53) (- 1074 - e)
      in if k \<le> 0 then Double p e
         else let q = round_half_even p (nat k)
              in if \<bar>q\<bar> = 2 ^ 53 then Double (q div 2) (e + k + 1) else Double q (e + k))"

definition fmul :: "double \<Rightarrow> double \<Rightarrow> double" where
  "fmul a b = round_double (mant a * mant b) (expo a + expo b)"

definition fsub :: "double \<Rightarrow> double \<Rightarrow> double" where
  "fsub a b =
     (let e = min (expo a) (expo b)
      in round_double (mant a * 2 ^ nat (expo a - e) - mant b * 2 ^ nat (expo b - e)) e)"

text \<open>
  The quotient of two integers, as in \<^verbatim>\<open>value / 1000\<close> and in the literal \<^verbatim>\<open>3.9\<close>: the
  quotient is computed with two bits more than the mantissa holds and a sticky bit
  for the remainder, then rounded once.
\<close>

definition fdiv_int :: "int \<Rightarrow> int \<Rightarrow> double" where
  "fdiv_int v d =
     (if v = 0 then Double 0 0
      else let s = nat (max 0 (55 + bitlen d - bitlen v));
               q = (v * 2 ^ s) div d; r = (v * 2 ^ s) mod d
           in round_double (2 * q + (if 0 < r then 1 else 0)) (- int s - 1))"

definition le_zero :: "double \<Rightarrow> bool" where
  "le_zero a = (mant a \<le> 0)"

definition ge_one :: "double \<Rightarrow> bool" where
  "ge_one a = (if 0 \<le> expo a then 1 \<le> mant a else 2 ^ nat (- expo a) \<le> mant a)"

definition floor_double :: "double \<Rightarrow> int" where
  "floor_double a =
     (if 0 \<le> expo a then mant a * 2 ^ nat (expo a) else mant a div 2 ^ nat (- expo a))"

definition half :: double where
  "half = Double 1 (- 1)"

definition one :: double where
  "one = Double 1 0"

definition of_count :: "nat \<Rightarrow> double" where
  "of_count n = Double (int n) 0"

definition val :: "double \<Rightarrow> real" where
  "val a = real_of_int (mant a) * 2 powi expo a"

section \<open>Strings and bits\<close>

text \<open>
  A JavaScript string is a sequence of 16-bit code units; \<^verbatim>\<open>charCodeAt\<close> reads one and
  \<^verbatim>\<open>String.fromCharCode\<close> makes one. The binary strings of the service hold only the
  characters 0 and 1 and are modelled as lists of bits, most significant first.
\<close>

type_synonym jsstring = "16 word list"

fun bin_digits :: "nat \<Rightarrow> bool list" where
  "bin_digits n = (if n < 2 then [n = 1] else bin_digits (n div 2) @ [odd n])"

declare bin_digits.simps [simp del]

definition padStart :: "nat \<Rightarrow> bool list \<Rightarrow> bool list" where
  "padStart k bs = replicate (k - length bs) False @ bs"

definition parseInt2 :: "bool list \<Rightarrow> nat" where
  "parseInt2 bs = foldl (\<lambda>a b. 2 * a + (if b then 1 else 0)) 0 bs"

fun stringToBinary :: "jsstring \<Rightarrow> bool list" where
  "stringToBinary [] = []"
| "stringToBinary (c # cs) = padStart 16 (bin_digits (unat c)) @ stringToBinary cs"

fun binaryToString :: "bool list \<Rightarrow> jsstring" where
  "binaryToString [] = []"
| "binaryToString (b # bs) =
     word_of_nat (parseInt2 (take 16 (b # bs))) # binaryToString (drop 16 (b # bs))"

section \<open>ChaosPRNG\<close>

record ChaosPRNG =
  key :: jsstring
  width :: nat
  height :: nat
  totalPixels :: nat
  seed :: double
  state :: double

text \<open>The accumulator loop of \<^verbatim>\<open>generateSeed\<close>: add the code unit, multiply by 17, reduce.\<close>

fun key_value :: "int \<Rightarrow> jsstring \<Rightarrow> int" where
  "key_value v [] = v"
| "key_value v (c # cs) = key_value (((v + uint c) * 17) mod 1000) cs"

definition chaos_r :: double where
  "chaos_r = fdiv_int 39 10"

definition logistic :: "double \<Rightarrow> double" where
  "logistic v = fmul (fmul chaos_r v) (fsub one v)"

definition generateSeed :: "jsstring \<Rightarrow> double" where
  "generateSeed k =
     (let v0 = fdiv_int (key_value 0 k) 1000;
          v1 = (if le_zero v0 \<or> ge_one v0 then half else v0)
      in (logistic ^^ 100) v1)"

definition new_ChaosPRNG :: "jsstring \<Rightarrow> nat \<Rightarrow> nat \<Rightarrow> ChaosPRNG" where
  "new_ChaosPRNG k w h =
     \<lparr>key = k, width = w, height = h, totalPixels = w * h,
      seed = generateSeed k, state = generateSeed k\<rparr>"

definition next_state :: "double \<Rightarrow> double" where
  "next_state s = (let s' = logistic s in if le_zero s' \<or> ge_one s' then half else s')"

definition "next" :: "ChaosPRNG \<Rightarrow> double \<times> ChaosPRNG" where
  "next p = (let s = next_state (state p) in (s, p\<lparr>state := s\<rparr>))"

definition nextInt :: "nat \<Rightarrow> ChaosPRNG \<Rightarrow> int \<times> ChaosPRNG" where
  "nextInt m p = (case next p of (s, p') \<Rightarrow> (floor_double (fmul s (of_count m)), p'))"

datatype location = Location (xpos: int) (ypos: int) (channel: int)

text \<open>
  One turn of the \<^verbatim>\<open>do ... while\<close> body: three draws. The source keeps the used
  positions as the strings \<^verbatim>\<open>x,y,channel\<close> in a \<^verbatim>\<open>Set\<close>; that rendering of three
  integers is injective, so the set holds the triples themselves here.
\<close>

definition draw :: "ChaosPRNG \<Rightarrow> location \<times> ChaosPRNG" where
  "draw p =
     (case nextInt (width p) p of (x, p1) \<Rightarrow>
      case nextInt (height p1) p1 of (y, p2) \<Rightarrow>
      case nextInt 3 p2 of (c, p3) \<Rightarrow> (Location x y c, p3))"

text \<open>The \<^verbatim>\<open>do ... while (usedPositions.has(positionKey))\<close> loop; \<open>None\<close> is not returning.\<close>

partial_function (option) draw_unique ::
  "location set \<Rightarrow> ChaosPRNG \<Rightarrow> (location \<times> ChaosPRNG) option" where
  "draw_unique used p =
     (case draw p of (l, p') \<Rightarrow> if l \<in> used then draw_unique used p' else Some (l, p'))"

fun sequence_loop ::
  "nat \<Rightarrow> location list \<Rightarrow> location set \<Rightarrow> ChaosPRNG \<Rightarrow> (location list \<times> ChaosPRNG) option" where
  "sequence_loop 0 sq used p = Some (sq, p)"
| "sequence_loop (Suc n) sq used p =
     (case draw_unique used p of
        None \<Rightarrow> None
      | Some (l, p') \<Rightarrow> sequence_loop n (sq @ [l]) (insert l used) p')"

definition generatePixelSequence ::
  "nat \<Rightarrow> ChaosPRNG \<Rightarrow> (location list \<times> ChaosPRNG) option" where
  "generatePixelSequence count p = sequence_loop count [] {} p"

section \<open>SteganographyService\<close>

record ImageData =
  data :: "8 word list"
  imgWidth :: nat
  imgHeight :: nat

definition pixelIndex :: "nat \<Rightarrow> location \<Rightarrow> int" where
  "pixelIndex w l = (ypos l * int w + xpos l) * 4"

text \<open>
  Reading a typed array outside its bounds gives \<^verbatim>\<open>undefined\<close>, which the bit operators
  take as 0; writing outside its bounds does nothing.
\<close>

definition read_byte :: "8 word list \<Rightarrow> int \<Rightarrow> 8 word" where
  "read_byte d i = (if 0 \<le> i \<and> i < int (length d) then d ! nat i else 0)"

definition write_byte :: "8 word list \<Rightarrow> int \<Rightarrow> 8 word \<Rightarrow> 8 word list" where
  "write_byte d i v = (if 0 \<le> i \<and> i < int (length d) then d[nat i := v] else d)"

definition lsb_at :: "8 word list \<Rightarrow> nat \<Rightarrow> location \<Rightarrow> bool" where
  "lsb_at d w l = (read_byte d (pixelIndex w l + channel l) AND 1 = 1)"

fun embed :: "8 word list \<Rightarrow> nat \<Rightarrow> location list \<Rightarrow> bool list \<Rightarrow> 8 word list" where
  "embed d w (l # ls) (b # bs) =
     (let i = pixelIndex w l + channel l;
          currentValue = read_byte d i;
          newValue = (currentValue AND 0xFE) OR (if b then 1 else 0)
      in embed (write_byte d i newValue) w ls bs)"
| "embed d w _ _ = d"

definition fullBinary :: "jsstring \<Rightarrow> bool list" where
  "fullBinary message =
     (let messageBinary = stringToBinary message;
          lengthBinary = padStart 32 (bin_digits (length messageBinary))
      in lengthBinary @ messageBinary)"

definition encode :: "ImageData \<Rightarrow> jsstring \<Rightarrow> jsstring \<Rightarrow> ImageData option" where
  "encode imageData message k =
     (let prng = new_ChaosPRNG k (imgWidth imageData) (imgHeight imageData);
          bits = fullBinary message;
          totalBits = length bits
      in case generatePixelSequence totalBits prng of
           None \<Rightarrow> None
         | Some (pixelSequence, _) \<Rightarrow>
             Some (imageData\<lparr>data := embed (data imageData) (imgWidth imageData) pixelSequence bits\<rparr>))"

text \<open>
  \<^verbatim>\<open>decode\<close> returns the message, or \<^verbatim>\<open>null\<close> when the \<^verbatim>\<open>try\<close> block throws; the only
  \<^verbatim>\<open>throw\<close> is the one on the length.
\<close>

datatype decoded = Null | Text jsstring

definition decode :: "ImageData \<Rightarrow> jsstring \<Rightarrow> decoded option" where
  "decode imageData k =
     (let w = imgWidth imageData; h = imgHeight imageData;
          prng = new_ChaosPRNG k w h
      in case generatePixelSequence 32 prng of
           None \<Rightarrow> None
         | Some (lengthSequence, prng1) \<Rightarrow>
             let messageLength = parseInt2 (map (lsb_at (data imageData) w) lengthSequence)
             in if messageLength \<le> 0 \<or> messageLength > w * h * 3 then Some Null
                else case generatePixelSequence messageLength prng1 of
                       None \<Rightarrow> None
                     | Some (messageSequence, _) \<Rightarrow>
                         Some (Text (binaryToString
                                 (map (lsb_at (data imageData) w) messageSequence))))"

section \<open>The encode handler of the application\<close>

text \<open>
  \<^verbatim>\<open>handleEncode\<close> of \<^verbatim>\<open>App.js\<close> checks its inputs before it calls the service. The
  selected file is modelled by the image data that \<^verbatim>\<open>loadImageData\<close> reads from it.
\<close>

definition is_whitespace :: "16 word \<Rightarrow> bool" where
  "is_whitespace c =
     (c \<in> {0x09, 0x0A, 0x0B, 0x0C, 0x0D, 0x20, 0xA0, 0x1680, 0x2028, 0x2029, 0x202F,
            0x205F, 0x3000, 0xFEFF} \<or> (0x2000 \<le> c \<and> c \<le> 0x200A))"

definition trim :: "jsstring \<Rightarrow> jsstring" where
  "trim s = rev (dropWhile is_whitespace (rev (dropWhile is_whitespace s)))"

record App =
  image :: "ImageData option"
  message :: jsstring
  secretKey :: jsstring

definition handleEncode :: "App \<Rightarrow> (string + ImageData) option" where
  "handleEncode app =
     (case image app of
        None \<Rightarrow> Some (Inl ''Please select an image'')
      | Some imageData \<Rightarrow>
          if trim (message app) = [] then Some (Inl ''Please enter a message to hide'')
          else if trim (secretKey app) = [] then Some (Inl ''Please enter a secret key'')
          else map_option Inr (encode imageData (message app) (secretKey app)))"

section \<open>Definitions used in the proofs\<close>

definition unit_roundoff :: real where
  "unit_roundoff = 2 powi (- 53)"

definition tiny :: real where
  "tiny = 2 powi (- 1075)"

definition in_unit :: "double \<Rightarrow> bool" where
  "in_unit s = (0 < mant s \<and> mant s < 2 ^ 53 \<and> \<not> ge_one s)"

definition wf_loc :: "nat \<Rightarrow> nat \<Rightarrow> location \<Rightarrow> bool" where
  "wf_loc w h l =
     (0 \<le> xpos l \<and> xpos l < int w \<and> 0 \<le> ypos l \<and> ypos l < int h \<and> 0 \<le> channel l \<and> channel l < 3)"

definition byte_offset :: "nat \<Rightarrow> location \<Rightarrow> int" where
  "byte_offset w l = pixelIndex w l + channel l"

text \<open>Evaluation helpers: the same computations, staged so that every argument is a numeral
  before the next function unfolds.\<close>

definition pick_nearest :: "int \<Rightarrow> int \<Rightarrow> int \<Rightarrow> int" where
  "pick_nearest p q t = (if p < t then q else if t < p then q + 1 else if even q then q else q + 1)"

definition renormalize :: "int \<Rightarrow> int \<Rightarrow> double" where
  "renormalize q e = (if \<bar>q\<bar> = 2 ^ 53 then Double (q div 2) (e + 1) else Double q e)"

definition round_to :: "int \<Rightarrow> int \<Rightarrow> int \<Rightarrow> double" where
  "round_to k p e =
     (if k \<le> 0 then Double p e
      else renormalize (pick_nearest p (drop_bit (nat k) p)
             (push_bit (nat k - 1) (2 * drop_bit (nat k) p + 1))) (e + k))"

definition guard :: "double \<Rightarrow> double" where
  "guard s = (if le_zero s \<or> ge_one s then half else s)"

definition scaled :: "double \<Rightarrow> nat \<Rightarrow> int" where
  "scaled s m = floor_double (fmul s (of_count m))"

definition draw_done :: "int \<Rightarrow> int \<Rightarrow> double \<Rightarrow> location \<times> double" where
  "draw_done xv yv s = (Location xv yv (scaled s 3), s)"

definition draw_c :: "int \<Rightarrow> nat \<Rightarrow> double \<Rightarrow> location \<times> double" where
  "draw_c xv h s = draw_done xv (scaled s h) (next_state s)"

definition draw_y :: "nat \<Rightarrow> nat \<Rightarrow> double \<Rightarrow> location \<times> double" where
  "draw_y w h s = draw_c (scaled s w) h (next_state s)"

definition draw_state :: "nat \<Rightarrow> nat \<Rightarrow> double \<Rightarrow> location \<times> double" where
  "draw_state w h s = draw_y w h (next_state s)"

fun draw_stream :: "nat \<Rightarrow> nat \<Rightarrow> nat \<Rightarrow> double \<Rightarrow> (location \<times> double) list" where
  "draw_stream w h 0 s = []"
| "draw_stream w h (Suc n) s = draw_state w h s # draw_stream w h n (snd (draw_state w h s))"

definition stream_cons :: "nat \<Rightarrow> nat \<Rightarrow> nat \<Rightarrow> location \<times> double \<Rightarrow> (location \<times> double) list" where
  "stream_cons w h n d = d # draw_stream w h n (snd d)"

fun pick ::
  "location set \<Rightarrow> (location \<times> double) list \<Rightarrow> ((location \<times> double) \<times> (location \<times> double) list) option" where
  "pick used [] = None"
| "pick used (d # ds) = (if fst d \<in> used then pick used ds else Some (d, ds))"

fun run_loop ::
  "nat \<Rightarrow> location list \<Rightarrow> location set \<Rightarrow> double \<Rightarrow> (location \<times> double) list
     \<Rightarrow> (location list \<times> double \<times> (location \<times> double) list) option" where
  "run_loop 0 sq used s ds = Some (sq, s, ds)"
| "run_loop (Suc n) sq used s ds =
     (case pick used ds of
        None \<Rightarrow> None
      | Some (d, ds') \<Rightarrow> run_loop n (sq @ [fst d]) (insert (fst d) used) (snd d) ds')"

definition stream_end :: "double \<Rightarrow> (location \<times> double) list \<Rightarrow> double" where
  "stream_end s ds = (if ds = [] then s else snd (last ds))"

definition run_sequence ::
  "nat \<Rightarrow> double \<Rightarrow> (location \<times> double) list \<Rightarrow> (location list \<times> double) option" where
  "run_sequence n s ds =
     (case run_loop n [] {} s ds of None \<Rightarrow> None | Some (sq, s', r) \<Rightarrow> Some (sq, s'))"

definition run_twice ::
  "nat \<Rightarrow> nat \<Rightarrow> double \<Rightarrow> (location \<times> double) list
     \<Rightarrow> ((location list \<times> double) \<times> (location list \<times> double)) option" where
  "run_twice n1 n2 s ds =
     (case run_loop n1 [] {} s ds of
        None \<Rightarrow> None
      | Some (sq1, s1, r1) \<Rightarrow>
          (case run_loop n2 [] {} s1 r1 of
             None \<Rightarrow> None
           | Some (sq2, s2, r2) \<Rightarrow> Some ((sq1, s1), (sq2, s2))))"

definition seed_of :: "int \<Rightarrow> double" where
  "seed_of v =
     (let v0 = fdiv_int v 1000;
          v1 = (if le_zero v0 \<or> ge_one v0 then half else v0)
      in (logistic ^^ 100) v1)"

definition rekey :: "jsstring \<Rightarrow> ChaosPRNG \<Rightarrow> ChaosPRNG" where
  "rekey k p = p\<lparr>key := k\<rparr>"

definition lookup_bit :: "(location \<times> bool) list \<Rightarrow> bool \<Rightarrow> location \<Rightarrow> bool" where
  "lookup_bit ps d l = (case map_of ps l of None \<Rightarrow> d | Some b \<Rightarrow> b)"

definition stream_a_1 :: "(location \<times> double) list" where
  "stream_a_1 =
    [(Location 43 0 2, Double 8409899568497207 (- 53)),
     (Location 55 0 2, Double 7168203303413833 (- 53)),
     (Location 144 0 1, Double 6023404888699697 (- 54)),
     (Location 197 0 2, Double 8682716471045410 (- 53)),
     (Location 30 0 2, Double 8716040753422629 (- 53)),
     (Location 27 0 2, Double 8544264880812002 (- 53)),
     (Location 43 0 2, Double 8426832100325485 (- 53)),
     (Location 53 0 2, Double 7358164043096694 (- 53)),
     (Location 132 0 0, Double 6933633066521027 (- 55)),
     (Location 138 0 0, Double 4507489590599800 (- 54)),
     (Location 166 0 2, Double 6302445139908896 (- 53)),
     (Location 186 0 2, Double 8573668587228625 (- 53)),
     (Location 40 0 2, Double 8598221943731564 (- 53)),
     (Location 38 0 2, Double 8701693985139847 (- 53)),
     (Location 29 0 2, Double 8632239350026831 (- 53))]"

definition stream_a_2 :: "(location \<times> double) list" where
  "stream_a_2 =
    [(Location 35 0 2, Double 8776617907941036 (- 53)),
     (Location 22 0 2, Double 7910554809214657 (- 53)),
     (Location 95 0 0, Double 6908253922828497 (- 55)),
     (Location 137 0 0, Double 8846439483916455 (- 55)),
     (Location 164 0 1, Double 5988987455122560 (- 53)),
     (Location 198 0 2, Double 8672462798481186 (- 53)),
     (Location 31 0 2, Double 8746711022158423 (- 53)),
     (Location 24 0 2, Double 8279270819497832 (- 53)),
     (Location 66 0 1, Double 5566789437955047 (- 53)),
     (Location 209 0 2, Double 7156272083947127 (- 53)),
     (Location 145 0 1, Double 6205851226608929 (- 54)),
     (Location 200 0 2, Double 8496177351160515 (- 53)),
     (Location 47 0 2, Double 8052683824533826 (- 53)),
     (Location 84 0 0, Double 5835814513641181 (- 54)),
     (Location 194 0 2, Double 8775047317226362 (- 53))]"

definition stream_a_3 :: "(location \<times> double) list" where
  "stream_a_3 =
    [(Location 22 0 2, Double 7932816658959706 (- 53)),
     (Location 93 0 0, Double 7527437277459702 (- 55)),
     (Location 146 0 1, Double 6686789488834841 (- 54)),
     (Location 207 0 2, Double 7624491945421195 (- 53)),
     (Location 115 0 0, Double 6897939652721580 (- 56)),
     (Location 76 0 1, Double 7834227410453404 (- 54)),
     (Location 218 0 1, Double 4607147501069194 (- 53)),
     (Location 222 0 1, Double 6152171491718896 (- 54)),
     (Location 199 0 2, Double 8560432360217903 (- 53)),
     (Location 41 0 2, Double 8527084050282764 (- 53)),
     (Location 44 0 2, Double 8305428446536401 (- 53)),
     (Location 63 0 1, Double 5897528771935642 (- 53)),
     (Location 201 0 2, Double 8478850574825769 (- 53)),
     (Location 49 0 2, Double 7893972619584349 (- 53)),
     (Location 96 0 0, Double 6479391940518114 (- 55))]"

definition stream_a_4 :: "(location \<times> double) list" where
  "stream_a_4 =
    [(Location 131 0 0, Double 6303532532196811 (- 55)),
     (Location 128 0 0, Double 5454812464672769 (- 55)),
     (Location 114 0 0, Double 6851163364824437 (- 56)),
     (Location 76 0 1, Double 7970299852431445 (- 54)),
     (Location 219 0 1, Double 8574005626135061 (- 54)),
     (Location 221 0 1, Double 6513241491169623 (- 54)),
     (Location 205 0 2, Double 7993906868008180 (- 53)),
     (Location 88 0 0, Double 4737461049396927 (- 54)),
     (Location 172 0 2, Double 7088084734020028 (- 53)),
     (Location 149 0 1, Double 7278602800406036 (- 54)),
     (Location 214 0 2, Double 6088214518292261 (- 53)),
     (Location 194 0 2, Double 8774591045381698 (- 53)),
     (Location 22 0 2, Double 7939221811340038 (- 53)),
     (Location 92 0 0, Double 7714705571301712 (- 55)),
     (Location 149 0 1, Double 7432263073239900 (- 54))]"

definition stream_a_5 :: "(location \<times> double) list" where
  "stream_a_5 =
    [(Location 215 0 1, Double 5663348189918176 (- 53)),
     (Location 207 0 2, Double 7622413842900113 (- 53)),
     (Location 115 0 0, Double 6907151149002086 (- 56)),
     (Location 77 0 1, Double 7807545841535086 (- 54)),
     (Location 218 0 1, Double 4672727160095111 (- 53)),
     (Location 221 0 1, Double 6331462255859616 (- 54)),
     (Location 202 0 2, Double 8317259652907643 (- 53)),
     (Location 62 0 2, Double 6046532102573631 (- 53)),
     (Location 196 0 2, Double 8746019071494745 (- 53)),
     (Location 25 0 2, Double 8286467606792723 (- 53)),
     (Location 65 0 1, Double 5657868353277929 (- 53)),
     (Location 207 0 2, Double 7597357171761502 (- 53)),
     (Location 117 0 0, Double 7080743698984356 (- 56)),
     (Location 78 0 1, Double 7312157755674217 (- 54)),
     (Location 214 0 1, Double 5995288295340327 (- 53))]"

definition stream_a :: "(location \<times> double) list" where
  "stream_a = stream_a_1 @ stream_a_2 @ stream_a_3 @ stream_a_4 @ stream_a_5"

definition header_a :: "location list" where
  "header_a =
    [Location 43 0 2, Location 55 0 2, Location 144 0 1,
     Location 197 0 2, Location 30 0 2, Location 27 0 2,
     Location 53 0 2, Location 132 0 0, Location 138 0 0,
     Location 166 0 2, Location 186 0 2, Location 40 0 2,
     Location 38 0 2, Location 29 0 2, Location 35 0 2,
     Location 22 0 2, Location 95 0 0, Location 137 0 0,
     Location 164 0 1, Location 198 0 2, Location 31 0 2,
     Location 24 0 2, Location 66 0 1, Location 209 0 2,
     Location 145 0 1, Location 200 0 2, Location 47 0 2,
     Location 84 0 0, Location 194 0 2, Location 93 0 0,
     Location 146 0 1, Location 207 0 2]"

definition body_a_16 :: "location list" where
  "body_a_16 =
    [Location 115 0 0, Location 76 0 1, Location 218 0 1,
     Location 222 0 1, Location 199 0 2, Location 41 0 2,
     Location 44 0 2, Location 63 0 1, Location 201 0 2,
     Location 49 0 2, Location 96 0 0, Location 131 0 0,
     Location 128 0 0, Location 114 0 0, Location 219 0 1,
     Location 221 0 1]"

definition body_a_enc :: "location list" where
  "body_a_enc =
    [Location 205 0 2, Location 88 0 0, Location 172 0 2,
     Location 149 0 1, Location 214 0 2, Location 92 0 0,
     Location 215 0 1, Location 77 0 1, Location 202 0 2,
     Location 62 0 2, Location 196 0 2, Location 25 0 2,
     Location 65 0 1, Location 117 0 0, Location 78 0 1,
     Location 214 0 1]"

definition body_a_dec :: "location list" where
  "body_a_dec =
    [Location 115 0 0, Location 76 0 1, Location 218 0 1,
     Location 222 0 1, Location 199 0 2, Location 41 0 2,
     Location 44 0 2, Location 63 0 1, Location 201 0 2,
     Location 49 0 2, Location 96 0 0, Location 131 0 0,
     Location 128 0 0, Location 114 0 0, Location 219 0 1,
     Location 221 0 1, Location 205 0 2, Location 88 0 0,
     Location 172 0 2, Location 149 0 1, Location 214 0 2,
     Location 194 0 2, Location 22 0 2, Location 92 0 0,
     Location 215 0 1, Location 207 0 2, Location 77 0 1,
     Location 202 0 2, Location 62 0 2, Location 196 0 2,
     Location 25 0 2, Location 65 0 1]"

definition white :: ImageData where
  "white = \<lparr>data = replicate 912 255, imgWidth = 228, imgHeight = 1\<rparr>"

definition encoded_A :: ImageData where
  "encoded_A =
     \<lparr>data = embed (replicate 912 255) 228 (header_a @ body_a_16) (fullBinary [0x41]),
      imgWidth = 228, imgHeight = 1\<rparr>"

definition encoded_Hi :: ImageData where
  "encoded_Hi =
     \<lparr>data = embed (replicate 912 255) 228 (header_a @ body_a_16 @ body_a_enc)
               (fullBinary [0x48, 0x69]),
      imgWidth = 228, imgHeight = 1\<rparr>"

definition encoded_empty :: ImageData where
  "encoded_empty =
     \<lparr>data = embed (replicate 912 255) 228 header_a (fullBinary []),
      imgWidth = 228, imgHeight = 1\<rparr>"

definition dark :: ImageData where
  "dark = \<lparr>data = (concat (replicate 228 [0, 0, 0, 255]))[830 := 1],
            imgWidth = 228, imgHeight = 1\<rparr>"

section \<open>Rounding to the nearest integer, ties to even\<close>

lemma round_half_even_upper:
  assumes "0 < k"
  shows "2 * (round_half_even p k * 2 ^ k) \<le> 2 * p + 2 ^ k"
proof -
  define q where "q = p div 2 ^ k"
  define r where "r = p mod 2 ^ k"
  have p: "p = q * 2 ^ k + r" unfolding q_def r_def by (rule div_mult_mod_eq[symmetric])
  have r: "0 \<le> r" "r < 2 ^ k" by (simp_all add: r_def)
  obtain j where k: "k = Suc j" using assms by (cases k) auto
  have h: "(2::int) ^ k = 2 * 2 ^ (k - 1)" by (simp add: k)
  show ?thesis
    using r unfolding round_half_even_def Let_def q_def[symmetric] r_def[symmetric] p h
    using assms by (auto simp: algebra_simps)
qed

lemma round_half_even_lower:
  assumes "0 < k"
  shows "2 * p - 2 ^ k \<le> 2 * (round_half_even p k * 2 ^ k)"
proof -
  define q where "q = p div 2 ^ k"
  define r where "r = p mod 2 ^ k"
  have p: "p = q * 2 ^ k + r" unfolding q_def r_def by (rule div_mult_mod_eq[symmetric])
  have r: "0 \<le> r" "r < 2 ^ k" by (simp_all add: r_def)
  obtain j where k: "k = Suc j" using assms by (cases k) auto
  have h: "(2::int) ^ k = 2 * 2 ^ (k - 1)" by (simp add: k)
  show ?thesis
    using r unfolding round_half_even_def Let_def q_def[symmetric] r_def[symmetric] p h
    using assms by (auto simp: algebra_simps)
qed

lemma round_half_even_nonneg: "0 \<le> p \<Longrightarrow> 0 \<le> round_half_even p k"
  by (auto simp: round_half_even_def Let_def pos_imp_zdiv_nonneg_iff intro: add_nonneg_nonneg)

lemma round_half_even_nonpos: "p \<le> 0 \<Longrightarrow> round_half_even p k \<le> 0"
proof (cases "k = 0 \<or> p = 0")
  case True
  assume "p \<le> 0"
  with True show ?thesis by (auto simp: round_half_even_def)
next
  case False
  assume "p \<le> 0"
  with False have "p < 0" by simp
  then have "p div 2 ^ k < 0" by (simp add: div_neg_pos_less0)
  then show ?thesis by (auto simp: round_half_even_def Let_def)
qed

lemma val_Double [simp]: "val (Double m e) = real_of_int m * 2 powi e"
  by (simp add: val_def)

lemma bitlen_pos_bounds:
  assumes "0 < p"
  shows "2 ^ nat (bitlen p - 1) \<le> p" "p < 2 ^ nat (bitlen p)"
  using bitlen_bounds[OF assms] by auto

text \<open>The value of a rounded number, whatever the branch.\<close>

lemma val_round_double_exact:
  "max (bitlen \<bar>p\<bar> - 53) (- 1074 - e) \<le> 0 \<Longrightarrow> val (round_double p e) = real_of_int p * 2 powi e"
  by (simp add: round_double_def)

lemma half_pow53 [simp]: "(2::int) ^ 53 div 2 = 2 ^ 52" "- ((2::int) ^ 53) div 2 = - (2 ^ 52)"
  by simp_all

lemma val_round_double_rounded:
  assumes "0 < k" "k = max (bitlen \<bar>p\<bar> - 53) (- 1074 - e)"
  shows "val (round_double p e) = real_of_int (round_half_even p (nat k)) * 2 powi (e + k)"
proof -
  define q where "q = round_half_even p (nat k)"
  have rd: "round_double p e =
      (if \<bar>q\<bar> = 2 ^ 53 then Double (q div 2) (e + k + 1) else Double q (e + k))"
    using assms unfolding round_double_def Let_def q_def by (simp only: if_not_P not_le)
  show ?thesis
  proof (cases "\<bar>q\<bar> = 2 ^ 53")
    case False
    then show ?thesis unfolding rd q_def[symmetric] by (simp only: if_False val_Double)
  next
    case True
    then have "q = 2 ^ 53 \<or> q = - (2 ^ 53)" by linarith
    then have "q = 2 * (q div 2)" by auto
    then have "real_of_int q = 2 * real_of_int (q div 2)"
      by (metis of_int_mult of_int_numeral)
    moreover have "(2::real) powi (e + k + 1) = 2 * 2 powi (e + k)"
      by (simp add: power_int_add)
    ultimately have "real_of_int (q div 2) * 2 powi (e + k + 1) = real_of_int q * 2 powi (e + k)"
      by simp
    then show ?thesis unfolding rd q_def[symmetric] using True by (simp only: simp_thms if_True val_Double)
  qed
qed

text \<open>The error of one rounding, from above: half a unit in the last place.\<close>

lemma powi2_add: "(2::real) powi a * 2 powi b = 2 powi (a + b)"
  by (simp add: power_int_add)

lemma powi_nat_real: "0 \<le> k \<Longrightarrow> (2::real) ^ nat k = 2 powi k"
  by (simp add: power_int_def)

lemma unit_roundoff_pos: "0 < unit_roundoff" and tiny_pos: "0 < tiny"
  by (simp_all only: unit_roundoff_def tiny_def zero_less_power_int zero_less_numeral)

lemma val_round_double_upper:
  assumes p: "0 \<le> p"
  shows "val (round_double p e)
           \<le> real_of_int p * 2 powi e * (1 + unit_roundoff) + tiny"
proof -
  define k where "k = max (bitlen \<bar>p\<bar> - 53) (- 1074 - e)"
  have x0: "0 \<le> real_of_int p * 2 powi e" using p by simp
  show ?thesis
  proof (cases "k \<le> 0")
    case True
    then have "val (round_double p e) = real_of_int p * 2 powi e"
      unfolding k_def by (rule val_round_double_exact)
    moreover have "0 \<le> real_of_int p * 2 powi e * unit_roundoff"
      using x0 unit_roundoff_pos by simp
    ultimately show ?thesis using tiny_pos by (simp add: algebra_simps)
  next
    case False
    then have k: "0 < k" by simp
    define q where "q = round_half_even p (nat k)"
    have v: "val (round_double p e) = real_of_int q * 2 powi (e + k)"
      unfolding q_def using k k_def by (rule val_round_double_rounded)
    have "2 * (q * 2 ^ nat k) \<le> 2 * p + 2 ^ nat k"
      unfolding q_def using k by (intro round_half_even_upper) simp
    then have "real_of_int (2 * (q * 2 ^ nat k)) \<le> real_of_int (2 * p + 2 ^ nat k)"
      by (simp only: of_int_le_iff)
    then have "2 * (real_of_int q * 2 powi k) \<le> 2 * real_of_int p + 2 powi k"
      using k by (simp add: powi_nat_real)
    then have q: "real_of_int q * 2 powi k \<le> real_of_int p + 2 powi (k - 1)"
      by (simp add: power_int_diff)
    have "real_of_int q * 2 powi (e + k) = (real_of_int q * 2 powi k) * 2 powi e"
      by (simp add: power_int_add)
    also have "\<dots> \<le> (real_of_int p + 2 powi (k - 1)) * 2 powi e"
      using q by (intro mult_right_mono) simp_all
    also have "\<dots> = real_of_int p * 2 powi e + 2 powi (e + k - 1)"
      by (simp add: algebra_simps power_int_add power_int_diff)
    finally have main: "val (round_double p e) \<le> real_of_int p * 2 powi e + 2 powi (e + k - 1)"
      using v by simp
    have "2 powi (e + k - 1) \<le> real_of_int p * 2 powi e * unit_roundoff + tiny"
    proof (cases "bitlen \<bar>p\<bar> - 53 \<le> - 1074 - e")
      case True
      then have "e + k - 1 = - 1075" by (simp add: k_def)
      then have "2 powi (e + k - 1) = tiny" by (simp only: tiny_def)
      moreover have "0 \<le> real_of_int p * 2 powi e * unit_roundoff"
        using x0 unit_roundoff_pos by simp
      ultimately show ?thesis by simp
    next
      case False
      then have kk: "k = bitlen p - 53" using p by (simp add: k_def)
      with k have p0: "0 < p" using bitlen_nonneg p by (cases "p = 0") auto
      have "2 ^ nat (bitlen p - 1) \<le> p" using bitlen_pos_bounds(1)[OF p0] .
      then have "real_of_int (2 ^ nat (bitlen p - 1)) \<le> real_of_int p"
        by (simp only: of_int_le_iff)
      moreover have "0 \<le> bitlen p - 1" using kk k by simp
      ultimately have "2 powi (bitlen p - 1) \<le> real_of_int p"
        by (simp add: powi_nat_real)
      then have "2 powi (bitlen p - 1) * (2 powi e * 2 powi (- 53)) \<le> real_of_int p * (2 powi e * 2 powi (- 53))"
        by (intro mult_right_mono mult_nonneg_nonneg) simp_all
      moreover have "(2::real) powi (bitlen p - 1) * (2 powi e * 2 powi (- 53)) = 2 powi (e + k - 1)"
        unfolding kk powi2_add by (rule arg_cong[where f="\<lambda>i. 2 powi i"]) simp
      ultimately have "2 powi (e + k - 1) \<le> real_of_int p * 2 powi e * unit_roundoff"
        by (simp only: unit_roundoff_def mult.assoc)
      then show ?thesis using tiny_pos by simp
    qed
    with main show ?thesis by (simp add: algebra_simps)
  qed
qed

lemma mant_round_double_nonpos: "p \<le> 0 \<Longrightarrow> mant (round_double p e) \<le> 0"
proof -
  assume p: "p \<le> 0"
  have "round_half_even p k \<le> 0" for k using p by (rule round_half_even_nonpos)
  moreover have "round_half_even p k div 2 \<le> 0" for k
    using round_half_even_nonpos[OF p, of k] by simp
  ultimately show ?thesis using p by (simp add: round_double_def Let_def)
qed

lemma mant_round_double_bound:
  assumes p: "0 \<le> p"
  shows "0 \<le> mant (round_double p e) \<and> mant (round_double p e) < 2 ^ 53"
proof -
  define k where "k = max (bitlen \<bar>p\<bar> - 53) (- 1074 - e)"
  have pb: "p < 2 ^ nat (bitlen p)"
  proof (cases "p = 0")
    case True then show ?thesis by simp
  next
    case False
    with p have "0 < p" by simp
    then show ?thesis by (rule bitlen_pos_bounds(2))
  qed
  show ?thesis
  proof (cases "k \<le> 0")
    case True
    then have "bitlen p \<le> 53" using p by (simp add: k_def)
    then have "(2::int) ^ nat (bitlen p) \<le> 2 ^ 53"
      by (intro power_increasing) simp_all
    with pb have "p < 2 ^ 53" by linarith
    moreover have "round_double p e = Double p e"
      using True unfolding round_double_def Let_def k_def[symmetric] by (simp only: if_True)
    ultimately show ?thesis using p by (simp only: double.sel)
  next
    case False
    then have k: "0 < k" by simp
    define q where "q = round_half_even p (nat k)"
    have rd: "round_double p e =
        (if \<bar>q\<bar> = 2 ^ 53 then Double (q div 2) (e + k + 1) else Double q (e + k))"
      using False unfolding round_double_def Let_def q_def k_def[symmetric] by (simp only: if_False)
    have q0: "0 \<le> q" unfolding q_def using p by (rule round_half_even_nonneg)
    have "bitlen p \<le> 53 + k" using p by (simp add: k_def)
    then have "nat (bitlen p) \<le> 53 + nat k" using k by linarith
    then have "(2::int) ^ nat (bitlen p) \<le> 2 ^ (53 + nat k)"
      by (intro power_increasing) simp_all
    with pb have pk: "p < 2 ^ 53 * 2 ^ nat k" by (simp add: power_add)
    have nk: "0 < nat k" using k by simp
    have up: "2 * (q * 2 ^ nat k) \<le> 2 * p + 2 ^ nat k"
      unfolding q_def using nk by (rule round_half_even_upper)
    have "q \<le> 2 ^ 53"
    proof (rule ccontr)
      define B :: int where "B = 2 ^ 53"
      define T :: int where "T = 2 ^ nat k"
      assume "\<not> q \<le> 2 ^ 53"
      then have "B + 1 \<le> q" by (simp add: B_def)
      moreover have T: "0 < T" by (simp add: T_def)
      ultimately have "(B + 1) * T \<le> q * T"
        by (intro mult_right_mono) simp_all
      then have "B * T + T \<le> q * T" by (simp add: algebra_simps)
      moreover have "2 * (q * T) \<le> 2 * p + T" using up by (simp only: T_def)
      moreover have "p < B * T" using pk by (simp only: B_def T_def)
      ultimately show False using T by linarith
    qed
    show ?thesis
    proof (cases "\<bar>q\<bar> = 2 ^ 53")
      case True
      then have "round_double p e = Double (q div 2) (e + k + 1)"
        unfolding rd by (simp only: simp_thms if_True)
      moreover from True q0 have "q = 2 ^ 53" by linarith
      ultimately show ?thesis by simp
    next
      case False
      then have "round_double p e = Double q (e + k)"
        unfolding rd by (simp only: simp_thms if_False)
      moreover from False q0 \<open>q \<le> 2 ^ 53\<close> have "q < 2 ^ 53" by linarith
      ultimately show ?thesis using q0 by simp
    qed
  qed
qed

lemma val_exact_product:
  "real_of_int (mant a * mant b) * 2 powi (expo a + expo b) = val a * val b"
  by (simp add: val_def power_int_add)

lemma val_fmul_upper:
  assumes "0 \<le> mant a * mant b"
  shows "val (fmul a b) \<le> val a * val b * (1 + unit_roundoff) + tiny"
  unfolding fmul_def val_exact_product[symmetric]
  using assms by (rule val_round_double_upper)

lemma ge_one_val: "ge_one a \<longleftrightarrow> 1 \<le> val a"
proof (cases "0 \<le> expo a")
  case True
  have "val a = real_of_int (mant a * 2 ^ nat (expo a))"
    using True by (simp add: val_def powi_nat_real)
  moreover have "(1 \<le> mant a * 2 ^ nat (expo a)) = (1 \<le> mant a)"
  proof
    assume "1 \<le> mant a * 2 ^ nat (expo a)"
    then have "0 < mant a * 2 ^ nat (expo a)" by linarith
    then have "0 < mant a" by (simp add: zero_less_mult_iff)
    then show "1 \<le> mant a" by simp
  next
    assume "1 \<le> mant a"
    moreover have "(1::int) \<le> 2 ^ nat (expo a)" by simp
    ultimately have "1 * 1 \<le> mant a * 2 ^ nat (expo a)"
      by (intro mult_mono) simp_all
    then show "1 \<le> mant a * 2 ^ nat (expo a)" by simp
  qed
  ultimately show ?thesis using True
    by (simp only: ge_one_def if_True) (metis of_int_1 of_int_le_iff)
next
  case False
  then have n: "0 \<le> - expo a" by simp
  have "(2::real) powi expo a * 2 powi (- expo a) = 1"
    by (simp add: powi2_add)
  then have "val a * 2 powi (- expo a) = real_of_int (mant a)"
    by (simp add: val_def mult.assoc)
  then have "(1 \<le> val a) = (2 powi (- expo a) \<le> real_of_int (mant a))"
    by (metis mult.left_neutral mult_le_cancel_right_pos zero_less_numeral zero_less_power_int)
  also have "\<dots> = (real_of_int (2 ^ nat (- expo a)) \<le> real_of_int (mant a))"
    using n by (simp add: powi_nat_real)
  also have "\<dots> = (2 ^ nat (- expo a) \<le> mant a)"
    by (simp only: of_int_le_iff)
  finally show ?thesis using False by (simp only: ge_one_def if_False)
qed

lemma floor_double_val: "floor_double a = \<lfloor>val a\<rfloor>"
proof (cases "0 \<le> expo a")
  case True
  have "val a = real_of_int (mant a * 2 ^ nat (expo a))"
    using True by (simp add: val_def powi_nat_real)
  then show ?thesis using True by (simp only: floor_double_def if_True floor_of_int)
next
  case False
  then have n: "0 \<le> - expo a" by simp
  have "(2::real) powi expo a = 1 / 2 powi (- expo a)"
    by (simp add: power_int_minus divide_simps)
  also have "\<dots> = 1 / real_of_int (2 ^ nat (- expo a))"
    using n by (simp add: powi_nat_real)
  finally have "val a = real_of_int (mant a) / real_of_int (2 ^ nat (- expo a))"
    by (simp add: val_def)
  then show ?thesis using False
    by (simp only: floor_double_def if_False floor_divide_of_int_eq)
qed

section \<open>The range of nextInt\<close>

lemma unit_roundoff_scale: "real_of_int (2 ^ 53) * unit_roundoff = 1"
proof -
  have "real_of_int (2 ^ 53) = 2 powi 53" by (simp add: power_int_def)
  then show ?thesis unfolding unit_roundoff_def powi2_add by simp
qed

lemma unit_roundoff_le_half: "unit_roundoff \<le> 1 / 2"
proof -
  have "(2::real) powi (- 53) \<le> 2 powi (- 1)"
    by (rule power_int_increasing) simp_all
  then show ?thesis by (simp add: unit_roundoff_def)
qed

lemma tiny_less: "tiny < unit_roundoff * unit_roundoff"
proof -
  have "(2::real) powi (- 1075) < 2 powi (- 106)"
    by (rule power_int_strict_increasing) simp_all
  then show ?thesis unfolding tiny_def unit_roundoff_def powi2_add by simp
qed

lemma in_unit_val_pos: "in_unit s \<Longrightarrow> 0 < val s"
  by (simp add: in_unit_def val_def)

lemma in_unit_val_le:
  assumes "in_unit s"
  shows "val s \<le> 1 - unit_roundoff"
proof -
  define B :: int where "B = 2 ^ 53"
  have m: "0 < mant s" "mant s < B" and lt: "val s < 1"
    using assms by (simp_all add: in_unit_def ge_one_val B_def)
  have Bu: "real_of_int B * unit_roundoff = 1"
    unfolding B_def by (rule unit_roundoff_scale)
  show ?thesis
  proof (cases "- 53 \<le> expo s")
    case True
    define N where "N = mant s * 2 ^ nat (expo s + 53)"
    have "(2::real) powi expo s = 2 powi (expo s + 53) * 2 powi (- 53)"
      unfolding powi2_add by simp
    also have "\<dots> = real_of_int (2 ^ nat (expo s + 53)) * unit_roundoff"
      using True by (simp add: powi_nat_real unit_roundoff_def)
    finally have v: "val s = real_of_int N * unit_roundoff"
      by (simp add: val_def N_def)
    have "real_of_int N * unit_roundoff < real_of_int B * unit_roundoff"
      using lt v Bu by simp
    then have "real_of_int N < real_of_int B"
      using unit_roundoff_pos by (simp only: mult_less_cancel_right_pos)
    then have "N \<le> B - 1" by simp
    then have "real_of_int N \<le> real_of_int (B - 1)" by (simp only: of_int_le_iff)
    then have "real_of_int N * unit_roundoff \<le> real_of_int (B - 1) * unit_roundoff"
      using unit_roundoff_pos by (intro mult_right_mono) simp_all
    also have "\<dots> = 1 - unit_roundoff" using Bu by (simp add: algebra_simps)
    finally show ?thesis using v by simp
  next
    case False
    then have "expo s \<le> - 54" by simp
    then have "(2::real) powi expo s \<le> 2 powi (- 54)"
      by (intro power_int_increasing) simp_all
    moreover have "real_of_int (mant s) \<le> real_of_int B" using m by simp
    ultimately have "val s \<le> real_of_int B * 2 powi (- 54)"
      unfolding val_def using m by (intro mult_mono) simp_all
    also have "(2::real) powi (- 54) = unit_roundoff * (1 / 2)"
    proof -
      have "(2::real) powi (- 54) = 2 powi (- 53) * 2 powi (- 1)"
        unfolding powi2_add by simp
      then show ?thesis by (simp add: unit_roundoff_def)
    qed
    also have "real_of_int B * (unit_roundoff * (1 / 2)) = 1 / 2"
      using Bu by simp
    finally show ?thesis using unit_roundoff_le_half by linarith
  qed
qed

lemma in_unit_half: "in_unit half"
  by (simp add: in_unit_def half_def ge_one_def)

lemma in_unit_next_state: "in_unit (next_state s)"
proof -
  define s' where "s' = logistic s"
  show ?thesis
  proof (cases "le_zero s' \<or> ge_one s'")
    case True
    then show ?thesis
      by (simp add: next_state_def Let_def s'_def[symmetric] in_unit_half)
  next
    case False
    then have pos: "0 < mant s'" and lt: "\<not> ge_one s'" by (simp_all add: le_zero_def)
    define a where "a = fmul chaos_r s"
    define b where "b = fsub one s"
    have s': "s' = round_double (mant a * mant b) (expo a + expo b)"
      by (simp add: s'_def logistic_def fmul_def a_def b_def)
    have "0 \<le> mant a * mant b"
    proof (rule ccontr)
      assume "\<not> 0 \<le> mant a * mant b"
      then have "mant a * mant b \<le> 0" by simp
      then have "mant s' \<le> 0" unfolding s' by (rule mant_round_double_nonpos)
      with pos show False by simp
    qed
    then have "mant s' < 2 ^ 53" unfolding s' using mant_round_double_bound by blast
    with pos lt have "in_unit s'" by (simp add: in_unit_def)
    with False show ?thesis
      by (simp add: next_state_def Let_def s'_def[symmetric])
  qed
qed

lemma floor_scaled_range:
  assumes s: "in_unit s" and m: "0 < m"
  shows "0 \<le> floor_double (fmul s (of_count m)) \<and> floor_double (fmul s (of_count m)) < int m"
proof -
  define r where "r = fmul s (of_count m)"
  have vm: "val (of_count m) = real m" by (simp add: of_count_def val_def)
  have prod0: "0 \<le> mant s * mant (of_count m)"
    using s by (simp add: in_unit_def of_count_def)
  have "0 \<le> mant r"
    unfolding r_def fmul_def using mant_round_double_bound[OF prod0] by blast
  then have "0 \<le> val r" by (simp add: val_def)
  then have lo: "0 \<le> floor_double r" by (simp add: floor_double_val)
  have "val r \<le> val s * real m * (1 + unit_roundoff) + tiny"
    unfolding r_def using val_fmul_upper[OF prod0] by (simp only: vm)
  moreover have "val s * real m \<le> (1 - unit_roundoff) * real m"
    using in_unit_val_le[OF s] by (intro mult_right_mono) simp_all
  then have "val s * real m * (1 + unit_roundoff) \<le> (1 - unit_roundoff) * real m * (1 + unit_roundoff)"
  proof (rule mult_right_mono)
    show "0 \<le> 1 + unit_roundoff" using unit_roundoff_pos by simp
  qed
  moreover have "(1 - unit_roundoff) * real m * (1 + unit_roundoff)
      = real m - real m * (unit_roundoff * unit_roundoff)"
    by (simp add: algebra_simps)
  moreover have "1 * (unit_roundoff * unit_roundoff) \<le> real m * (unit_roundoff * unit_roundoff)"
    using m unit_roundoff_pos by (intro mult_right_mono) simp_all
  ultimately have "val r < real m" using tiny_less by linarith
  then have "floor_double r < int m" by (simp add: floor_double_val floor_less_iff)
  with lo show ?thesis by (simp add: r_def)
qed

lemma nextInt_range:
  "0 < m \<Longrightarrow> 0 \<le> fst (nextInt m p) \<and> fst (nextInt m p) < int m"
  using floor_scaled_range[OF in_unit_next_state]
  by (simp add: nextInt_def next_def Let_def)

lemma nextInt_fields:
  "width (snd (nextInt m p)) = width p" "height (snd (nextInt m p)) = height p"
  "key (snd (nextInt m p)) = key p"
  by (simp_all add: nextInt_def next_def Let_def)

section \<open>The sequence generator: what a returned sequence satisfies\<close>

lemma draw_fields:
  "draw p = (l, p') \<Longrightarrow> width p' = width p \<and> height p' = height p \<and> key p' = key p"
proof -
  assume a: "draw p = (l, p')"
  obtain xv p1 where 1: "nextInt (width p) p = (xv, p1)" by (cases "nextInt (width p) p")
  obtain yv p2 where 2: "nextInt (height p1) p1 = (yv, p2)" by (cases "nextInt (height p1) p1")
  obtain cv p3 where 3: "nextInt 3 p2 = (cv, p3)" by (cases "nextInt 3 p2")
  have p': "p' = p3" using a 1 2 3 by (simp add: draw_def)
  have "width p1 = width p" "height p1 = height p" "key p1 = key p"
    using nextInt_fields[of "width p" p] 1 by simp_all
  moreover have "width p2 = width p1" "height p2 = height p1" "key p2 = key p1"
    using nextInt_fields[of "height p1" p1] 2 by simp_all
  moreover have "width p3 = width p2" "height p3 = height p2" "key p3 = key p2"
    using nextInt_fields[of 3 p2] 3 by simp_all
  ultimately show ?thesis using p' by simp
qed

lemma draw_wf:
  assumes "draw p = (l, p')" "0 < width p" "0 < height p"
  shows "wf_loc (width p) (height p) l"
proof -
  obtain xv p1 where 1: "nextInt (width p) p = (xv, p1)" by (cases "nextInt (width p) p")
  obtain yv p2 where 2: "nextInt (height p1) p1 = (yv, p2)" by (cases "nextInt (height p1) p1")
  obtain cv p3 where 3: "nextInt 3 p2 = (cv, p3)" by (cases "nextInt 3 p2")
  have l: "l = Location xv yv cv" using assms(1) 1 2 3 by (simp add: draw_def)
  have h1: "height p1 = height p" using nextInt_fields(2)[of "width p" p] 1 by simp
  have "0 \<le> xv \<and> xv < int (width p)"
    using nextInt_range[OF assms(2), of p] 1 by simp
  moreover have "0 \<le> yv \<and> yv < int (height p)"
    using nextInt_range[of "height p1" p1] 2 h1 assms(3) by simp
  moreover have "0 \<le> cv \<and> cv < 3"
    using nextInt_range[of 3 p2] 3 by simp
  ultimately show ?thesis by (simp add: wf_loc_def l)
qed

lemma draw_unique_Some_aux:
  assumes "draw_unique used p = Some y"
  shows "fst y \<notin> used \<and> width (snd y) = width p \<and> height (snd y) = height p
         \<and> key (snd y) = key p
         \<and> (0 < width p \<longrightarrow> 0 < height p \<longrightarrow> wf_loc (width p) (height p) (fst y))"
proof (rule draw_unique.raw_induct[where P = "\<lambda>used p y. fst y \<notin> used \<and> width (snd y) = width p \<and> height (snd y) = height p
         \<and> key (snd y) = key p
         \<and> (0 < width p \<longrightarrow> 0 < height p \<longrightarrow> wf_loc (width p) (height p) (fst y))", OF _ assms])
  fix f used p y
  assume IH: "\<And>used p y. f used p = Some y \<Longrightarrow> fst y \<notin> used \<and> width (snd y) = width p \<and> height (snd y) = height p
         \<and> key (snd y) = key p
         \<and> (0 < width p \<longrightarrow> 0 < height p \<longrightarrow> wf_loc (width p) (height p) (fst y))"
    and step: "(case draw p of (l, p') \<Rightarrow> if l \<in> used then f used p' else Some (l, p')) = Some y"
  obtain l1 p1 where d: "draw p = (l1, p1)" by (cases "draw p")
  note fl = draw_fields[OF d]
  show "fst y \<notin> used \<and> width (snd y) = width p \<and> height (snd y) = height p
         \<and> key (snd y) = key p
         \<and> (0 < width p \<longrightarrow> 0 < height p \<longrightarrow> wf_loc (width p) (height p) (fst y))"
  proof (cases "l1 \<in> used")
    case True
    then have "f used p1 = Some y" using step d by simp
    from IH[OF this] fl show ?thesis by simp
  next
    case False
    then have "y = (l1, p1)" using step d by simp
    then show ?thesis using False fl draw_wf[OF d] by simp
  qed
qed

lemma draw_unique_Some:
  assumes "draw_unique used p = Some (l, p')"
  shows "l \<notin> used \<and> width p' = width p \<and> height p' = height p \<and> key p' = key p
         \<and> (0 < width p \<longrightarrow> 0 < height p \<longrightarrow> wf_loc (width p) (height p) l)"
  using draw_unique_Some_aux[OF assms] by simp

lemma sequence_loop_Some:
  assumes "sequence_loop n sq used p = Some (sq', p')"
  shows "\<exists>new. sq' = sq @ new \<and> length new = n \<and> distinct new \<and> set new \<inter> used = {}
           \<and> width p' = width p \<and> height p' = height p \<and> key p' = key p
           \<and> (0 < width p \<longrightarrow> 0 < height p \<longrightarrow> (\<forall>l\<in>set new. wf_loc (width p) (height p) l))"
  using assms
proof (induction n arbitrary: sq used p)
  case 0
  then have "sq' = sq" "p' = p" by simp_all
  then show ?case by simp
next
  case (Suc n)
  show ?case
  proof (cases "draw_unique used p")
    case None
    with Suc.prems show ?thesis by simp
  next
    case (Some a)
    obtain l p1 where a: "a = (l, p1)" by (cases a)
    have du: "draw_unique used p = Some (l, p1)" using Some a by simp
    have rest: "sequence_loop n (sq @ [l]) (insert l used) p1 = Some (sq', p')"
      using Suc.prems du by simp
    note d = draw_unique_Some[OF du]
    from Suc.IH[OF rest] obtain new where new: "sq' = (sq @ [l]) @ new" "length new = n"
      "distinct new" "set new \<inter> insert l used = {}" "width p' = width p1" "height p' = height p1"
      "key p' = key p1"
      "0 < width p1 \<longrightarrow> 0 < height p1 \<longrightarrow> (\<forall>l\<in>set new. wf_loc (width p1) (height p1) l)"
      by (elim exE conjE)
    have 1: "sq' = sq @ l # new" using new(1) by simp
    have 2: "length (l # new) = Suc n" using new(2) by simp
    have 3: "distinct (l # new)" using new(3,4) by auto
    have 4: "set (l # new) \<inter> used = {}" using new(4) d by auto
    have 5: "width p' = width p" "height p' = height p" "key p' = key p" using new(5,6,7) d by simp_all
    have 6: "0 < width p \<longrightarrow> 0 < height p \<longrightarrow> (\<forall>l\<in>set (l # new). wf_loc (width p) (height p) l)"
      using new(8) d by simp
    from 1 2 3 4 5 6 show ?thesis by (intro exI[of _ "l # new"] conjI)
  qed
qed

lemma generatePixelSequence_Some:
  assumes "generatePixelSequence count p = Some (sq, p')"
  shows "length sq = count" "distinct sq"
    "width p' = width p" "height p' = height p"
    "0 < width p \<Longrightarrow> 0 < height p \<Longrightarrow> \<forall>l\<in>set sq. wf_loc (width p) (height p) l"
  using sequence_loop_Some[OF assms[unfolded generatePixelSequence_def]] by auto

lemma wf_loc_card: "finite {l. wf_loc w h l} \<and> card {l. wf_loc w h l} \<le> w * h * 3"
proof -
  let ?f = "\<lambda>(a, b, c). Location (int a) (int b) (int c)"
  let ?S = "{..<w} \<times> {..<h} \<times> {..<(3::nat)}"
  have sub: "{l. wf_loc w h l} \<subseteq> ?f ` ?S"
  proof
    fix l assume "l \<in> {l. wf_loc w h l}"
    then have wf: "wf_loc w h l" by simp
    then have "(nat (xpos l), nat (ypos l), nat (channel l)) \<in> ?S" by (auto simp: wf_loc_def)
    moreover have "?f (nat (xpos l), nat (ypos l), nat (channel l)) = l"
      using wf by (cases l) (simp add: wf_loc_def)
    ultimately show "l \<in> ?f ` ?S" by (metis (no_types, lifting) image_eqI)
  qed
  have fin: "finite (?f ` ?S)" by simp
  have "card (?f ` ?S) \<le> card ?S" by (rule card_image_le) simp
  also have "\<dots> = w * h * 3" by (simp add: card_cartesian_product)
  finally have "card (?f ` ?S) \<le> w * h * 3" .
  moreover have "card {l. wf_loc w h l} \<le> card (?f ` ?S)" using sub fin by (rule card_mono[rotated])
  ultimately show ?thesis using finite_subset[OF sub fin] by simp
qed

lemma generatePixelSequence_saturated:
  assumes "width p * height p * 3 < count" "0 < width p" "0 < height p"
  shows "generatePixelSequence count p = None"
proof (rule ccontr)
  assume "generatePixelSequence count p \<noteq> None"
  then obtain sq p' where s: "generatePixelSequence count p = Some (sq, p')" by auto
  note r = generatePixelSequence_Some[OF s]
  have "set sq \<subseteq> {l. wf_loc (width p) (height p) l}" using r(5) assms by auto
  then have "card (set sq) \<le> card {l. wf_loc (width p) (height p) l}"
    using wf_loc_card by (intro card_mono) simp_all
  also have "\<dots> \<le> width p * height p * 3" using wf_loc_card by simp
  finally show False using r(1,2) assms(1) by (simp add: distinct_card)
qed

section \<open>Embedding bits\<close>

lemma lsb_mask_keep: "(((c::8 word) AND 0xFE) OR (if b then 1 else 0)) AND 0xFE = c AND 0xFE"
  by (cases b) (simp_all add: word_ao_dist word_bw_assocs)

lemma lsb_mask_bit: "((((c::8 word) AND 0xFE) OR (if b then 1 else 0)) AND 1 = 1) = b"
  by (cases b) (simp_all add: word_ao_dist word_bw_assocs)

lemma embed_length [simp]: "length (embed d w ls bs) = length d"
  by (induction d w ls bs rule: embed.induct) (simp_all add: Let_def write_byte_def)

lemma write_byte_nth:
  "i < length d \<Longrightarrow>
     write_byte d j v ! i = (if 0 \<le> j \<and> j < int (length d) \<and> i = nat j then v else d ! i)"
  by (auto simp: write_byte_def)

lemma embed_step_high:
  assumes "i < length d"
  shows "write_byte d j ((read_byte d j AND 0xFE) OR (if b then 1 else 0)) ! i AND 0xFE
           = d ! i AND 0xFE"
  using assms by (auto simp: write_byte_nth read_byte_def lsb_mask_keep)

lemma embed_high_bits:
  "i < length d \<Longrightarrow> embed d w ls bs ! i AND 0xFE = d ! i AND 0xFE"
proof (induction d w ls bs rule: embed.induct)
  case (1 d w l ls b bs)
  define d' where "d' = write_byte d (pixelIndex w l + channel l)
      ((read_byte d (pixelIndex w l + channel l) AND 0xFE) OR (if b then 1 else 0))"
  have len: "length d' = length d" by (simp add: d'_def write_byte_def)
  have "embed d w (l # ls) (b # bs) = embed d' w ls bs" by (simp add: Let_def d'_def)
  moreover have "embed d' w ls bs ! i AND 0xFE = d' ! i AND 0xFE"
    using "1.IH"[OF refl refl refl, folded d'_def] "1.prems" len by simp
  moreover have "d' ! i AND 0xFE = d ! i AND 0xFE"
    unfolding d'_def using "1.prems" by (rule embed_step_high)
  ultimately show ?case by simp
qed simp_all

lemma embed_unselected:
  "i < length d \<Longrightarrow> int i \<notin> byte_offset w ` set ls \<Longrightarrow> embed d w ls bs ! i = d ! i"
proof (induction d w ls bs rule: embed.induct)
  case (1 d w l ls b bs)
  define d' where "d' = write_byte d (pixelIndex w l + channel l)
      ((read_byte d (pixelIndex w l + channel l) AND 0xFE) OR (if b then 1 else 0))"
  have len: "length d' = length d" by (simp add: d'_def write_byte_def)
  have ne: "int i \<noteq> pixelIndex w l + channel l" and rest: "int i \<notin> byte_offset w ` set ls"
    using "1.prems"(2) by (auto simp: byte_offset_def)
  have "embed d w (l # ls) (b # bs) = embed d' w ls bs" by (simp add: Let_def d'_def)
  moreover have "embed d' w ls bs ! i = d' ! i"
    using "1.IH"[OF refl refl refl, folded d'_def] "1.prems"(1) len rest by simp
  moreover have "d' ! i = d ! i"
    unfolding d'_def using "1.prems"(1) ne by (auto simp: write_byte_nth)
  ultimately show ?case by simp
qed simp_all

lemma embed_selected:
  assumes "distinct (map (byte_offset w) ls)"
    and "\<forall>l\<in>set ls. 0 \<le> byte_offset w l \<and> byte_offset w l < int (length d)"
    and "length ls \<le> length bs" and "j < length ls"
  shows "embed d w ls bs ! nat (byte_offset w (ls ! j))
           = (d ! nat (byte_offset w (ls ! j)) AND 0xFE) OR (if bs ! j then 1 else 0)"
  using assms
proof (induction d w ls bs arbitrary: j rule: embed.induct)
  case (1 d w l ls b bs)
  define off where "off = byte_offset w l"
  define d' where "d' = write_byte d off ((read_byte d off AND 0xFE) OR (if b then 1 else 0))"
  have len: "length d' = length d" by (simp add: d'_def write_byte_def)
  have off: "0 \<le> off" "off < int (length d)" using "1.prems"(2) by (simp_all add: off_def)
  have step: "embed d w (l # ls) (b # bs) = embed d' w ls bs"
    by (simp add: Let_def d'_def off_def byte_offset_def)
  have IH: "\<And>j. j < length ls \<Longrightarrow> embed d' w ls bs ! nat (byte_offset w (ls ! j))
           = (d' ! nat (byte_offset w (ls ! j)) AND 0xFE) OR (if bs ! j then 1 else 0)"
    using "1.IH"[OF refl refl refl, folded byte_offset_def off_def, folded d'_def] "1.prems"(1,2,3) len
    by simp
  show ?case
  proof (cases j)
    case 0
    have "int (nat off) \<notin> byte_offset w ` set ls"
      using "1.prems"(1) off by (auto simp: off_def)
    then have "embed d' w ls bs ! nat off = d' ! nat off"
      using off len by (intro embed_unselected) simp_all
    also have "\<dots> = (d ! nat off AND 0xFE) OR (if b then 1 else 0)"
      using off by (simp add: d'_def write_byte_nth read_byte_def)
    finally show ?thesis using 0 step by (simp add: off_def)
  next
    case (Suc j')
    then have j': "j' < length ls" using "1.prems"(4) by simp
    have "ls ! j' \<in> set ls" using j' by simp
    then have "byte_offset w (ls ! j') \<in> byte_offset w ` set ls" by (rule imageI)
    then have "byte_offset w (ls ! j') \<noteq> off"
      using "1.prems"(1) by (auto simp: off_def)
    moreover have "0 \<le> byte_offset w (ls ! j')" "byte_offset w (ls ! j') < int (length d)"
      using "1.prems"(2) j' by simp_all
    ultimately have "d' ! nat (byte_offset w (ls ! j')) = d ! nat (byte_offset w (ls ! j'))"
      using off by (auto simp: d'_def write_byte_nth)
    with IH[OF j'] show ?thesis using Suc step by simp
  qed
qed simp_all

lemma byte_offset_range:
  assumes "wf_loc w h l"
  shows "0 \<le> byte_offset w l \<and> byte_offset w l < int (w * h * 4)"
proof -
  have b: "0 \<le> xpos l" "xpos l \<le> int w - 1" "0 \<le> ypos l" "ypos l \<le> int h - 1"
    "0 \<le> channel l" "channel l \<le> 2"
    using assms by (simp_all add: wf_loc_def)
  have "ypos l * int w \<le> (int h - 1) * int w"
    using b by (intro mult_right_mono) simp_all
  then have "ypos l * int w + xpos l \<le> int h * int w - 1"
    using b by (simp add: algebra_simps)
  moreover have "0 \<le> ypos l * int w" using b by simp
  ultimately show ?thesis
    using b by (simp add: byte_offset_def pixelIndex_def algebra_simps)
qed

lemma byte_offset_channel:
  assumes "0 \<le> channel l" "channel l < 3"
  shows "byte_offset w l mod 4 = channel l"
proof -
  define n where "n = ypos l * int w + xpos l"
  have "byte_offset w l = channel l + 4 * n"
    by (simp add: byte_offset_def pixelIndex_def n_def)
  then have "byte_offset w l mod 4 = channel l mod 4" by (simp only: mod_mult_self2)
  then show ?thesis using assms by simp
qed

lemma byte_offset_inj:
  assumes "wf_loc w h l1" "wf_loc w h l2" "byte_offset w l1 = byte_offset w l2"
  shows "l1 = l2"
proof -
  have c: "channel l1 = channel l2"
    using byte_offset_channel[of l1 w] byte_offset_channel[of l2 w] assms
    by (simp add: wf_loc_def)
  then have e: "ypos l1 * int w + xpos l1 = ypos l2 * int w + xpos l2"
    using assms(3) by (simp add: byte_offset_def pixelIndex_def)
  have x1: "0 \<le> xpos l1" "xpos l1 < int w" and x2: "0 \<le> xpos l2" "xpos l2 < int w"
    using assms by (simp_all add: wf_loc_def)
  have "(xpos l1 + ypos l1 * int w) mod int w = xpos l1 mod int w" by (rule mod_mult_self1)
  then have "(ypos l1 * int w + xpos l1) mod int w = xpos l1" using x1 by (simp add: add.commute)
  moreover have "(xpos l2 + ypos l2 * int w) mod int w = xpos l2 mod int w" by (rule mod_mult_self1)
  then have "(ypos l2 * int w + xpos l2) mod int w = xpos l2" using x2 by (simp add: add.commute)
  ultimately have x: "xpos l1 = xpos l2" using e by simp
  then have "ypos l1 * int w = ypos l2 * int w" using e by simp
  moreover have "int w \<noteq> 0" using x1 by auto
  ultimately have "ypos l1 = ypos l2" by simp
  with x c show ?thesis by (simp add: location.expand)
qed

lemma byte_offset_distinct:
  assumes "distinct sq" "\<forall>l\<in>set sq. wf_loc w h l"
  shows "distinct (map (byte_offset w) sq)"
proof -
  have "inj_on (byte_offset w) (set sq)"
    using assms(2) by (auto intro!: inj_onI byte_offset_inj)
  with assms(1) show ?thesis by (simp add: distinct_map)
qed

lemma lsb_at_embed:
  assumes wf: "\<forall>l\<in>set sq. wf_loc w h l" and d: "distinct sq"
    and len: "length d0 = w * h * 4" and bits: "length sq = length bs" and l: "wf_loc w h l"
  shows "lsb_at (embed d0 w sq bs) w l
           = (case map_of (zip sq bs) l of None \<Rightarrow> lsb_at d0 w l | Some b \<Rightarrow> b)"
proof -
  have r: "0 \<le> byte_offset w l" "byte_offset w l < int (length d0)"
    using byte_offset_range[OF l] len by simp_all
  have rd: "read_byte dd (byte_offset w l) = dd ! nat (byte_offset w l)" if "length dd = length d0" for dd
    using r that by (simp add: read_byte_def)
  show ?thesis
  proof (cases "l \<in> set sq")
    case False
    then have "l \<notin> fst ` set (zip sq bs)" by (auto dest: set_zip_leftD)
    then have "map_of (zip sq bs) l = None" by (simp add: map_of_eq_None_iff)
    moreover have "int (nat (byte_offset w l)) \<notin> byte_offset w ` set sq"
    proof
      assume "int (nat (byte_offset w l)) \<in> byte_offset w ` set sq"
      then obtain l' where l': "l' \<in> set sq" "byte_offset w l' = byte_offset w l" using r by auto
      then have "l' = l" using wf l by (intro byte_offset_inj[of w h]) simp_all
      with l' False show False by simp
    qed
    then have "embed d0 w sq bs ! nat (byte_offset w l) = d0 ! nat (byte_offset w l)"
      using r by (intro embed_unselected) simp_all
    ultimately show ?thesis
      by (simp add: lsb_at_def byte_offset_def[symmetric] rd)
  next
    case True
    then obtain j where j: "j < length sq" "sq ! j = l" by (auto simp: in_set_conv_nth)
    have "map_of (zip sq bs) (sq ! j) = Some (bs ! j)"
      using bits d j(1) by (intro map_of_zip_nth) simp_all
    moreover have "embed d0 w sq bs ! nat (byte_offset w (sq ! j))
        = (d0 ! nat (byte_offset w (sq ! j)) AND 0xFE) OR (if bs ! j then 1 else 0)"
    proof (rule embed_selected)
      show "distinct (map (byte_offset w) sq)" using d wf by (rule byte_offset_distinct)
      show "\<forall>l\<in>set sq. 0 \<le> byte_offset w l \<and> byte_offset w l < int (length d0)"
        using wf byte_offset_range len by auto
    qed (use bits j in simp_all)
    ultimately show ?thesis
      using j(2) by (simp add: lsb_at_def byte_offset_def[symmetric] rd lsb_mask_bit)
  qed
qed

section \<open>Evaluating the arithmetic on numerals\<close>

lemma bitlen_numeral:
  "bitlen (numeral (Num.Bit0 n)) = bitlen (numeral n) + 1"
  "bitlen (numeral (Num.Bit1 n)) = bitlen (numeral n) + 1"
  "bitlen (numeral Num.One) = 1"
  "bitlen 1 = 1"
  by (subst compute_bitlen, simp)+

lemma round_half_even_eval:
  "round_half_even p k =
     (if k = 0 then p
      else pick_nearest p (drop_bit k p) (push_bit (k - 1) (2 * drop_bit k p + 1)))"
proof (cases "k = 0")
  case True
  then show ?thesis by (simp add: round_half_even_def)
next
  case False
  then obtain j where k: "k = Suc j" by (cases k) auto
  define q where "q = p div 2 ^ k"
  define r where "r = p mod 2 ^ k"
  define h :: int where "h = 2 ^ (k - 1)"
  define t where "t = push_bit (k - 1) (2 * q + 1)"
  have p: "p = q * 2 ^ k + r" unfolding q_def r_def by (rule div_mult_mod_eq[symmetric])
  have t: "t = q * 2 ^ k + h"
    by (simp add: t_def h_def push_bit_eq_mult k algebra_simps)
  have c: "(r < h) = (p < t)" "(h < r) = (t < p)"
    unfolding p t by simp_all
  have "round_half_even p k = (if r < h then q else if h < r then q + 1 else if even q then q else q + 1)"
    using False by (simp add: round_half_even_def Let_def q_def r_def h_def)
  also have "\<dots> = (if p < t then q else if t < p then q + 1 else if even q then q else q + 1)"
    by (simp only: c)
  finally show ?thesis
    using False by (simp add: pick_nearest_def drop_bit_eq_div q_def t_def)
qed

lemma round_double_eval:
  "round_double p e = round_to (max (bitlen \<bar>p\<bar> - 53) (- 1074 - e)) p e"
proof -
  define k where "k = max (bitlen \<bar>p\<bar> - 53) (- 1074 - e)"
  show ?thesis
  proof (cases "k \<le> 0")
    case True
    then show ?thesis
      unfolding round_double_def round_to_def Let_def k_def[symmetric] by (simp only: if_True)
  next
    case False
    then have "nat k \<noteq> 0" by simp
    then have "round_half_even p (nat k) = pick_nearest p (drop_bit (nat k) p)
             (push_bit (nat k - 1) (2 * drop_bit (nat k) p + 1))"
      by (simp only: round_half_even_eval if_False)
    then show ?thesis
      using False
      unfolding round_double_def round_to_def Let_def k_def[symmetric] renormalize_def
      by (simp only: if_False add.assoc add.commute[of 1])
  qed
qed

lemma fsub_eval:
  "fsub (Double ma ea) (Double mb eb) =
      round_double (push_bit (nat (ea - min ea eb)) ma - push_bit (nat (eb - min ea eb)) mb)
        (min ea eb)"
  by (simp add: fsub_def push_bit_eq_mult Let_def)

lemma fmul_eval:
  "fmul (Double ma ea) (Double mb eb) = round_double (ma * mb) (ea + eb)"
  by (simp add: fmul_def)

lemma chaos_r_eval: "chaos_r = Double 8782019273372467 (- 51)"
  unfolding chaos_r_def by code_simp

lemma next_state_eval: "next_state s = guard (logistic s)"
  by (simp add: next_state_def guard_def Let_def)

lemma le_zero_eval: "le_zero (Double m e) = (m \<le> 0)"
  by (simp add: le_zero_def)

lemma ge_one_eval: "ge_one (Double m e) = (if 0 \<le> e then 1 \<le> m else push_bit (nat (- e)) 1 \<le> m)"
  by (simp add: ge_one_def push_bit_eq_mult)

lemma floor_double_eval:
  "floor_double (Double m e) = (if 0 \<le> e then push_bit (nat e) m else drop_bit (nat (- e)) m)"
  by (simp add: floor_double_def push_bit_eq_mult drop_bit_eq_div)

lemma funpow_eval:
  "(f ^^ numeral k) v = (f ^^ pred_numeral k) (f v)"
  "(f ^^ 1) v = f v" "(f ^^ 0) v = v"
  by (simp_all add: numeral_eq_Suc funpow_swap1)

lemma draw_stream_eval:
  "draw_stream w h (numeral k) s = stream_cons w h (pred_numeral k) (draw_state w h s)"
  "draw_stream w h 1 s = stream_cons w h 0 (draw_state w h s)"
  by (simp_all add: numeral_eq_Suc stream_cons_def)

lemma stream_cons_eval: "stream_cons w h n (l, s) = (l, s) # draw_stream w h n s"
  by (simp add: stream_cons_def)

lemmas double_eval = logistic_def fmul_eval fsub_eval round_double_eval round_to_def renormalize_def
  pick_nearest_def bitlen_numeral chaos_r_eval one_def half_def next_state_eval guard_def
  le_zero_eval ge_one_eval floor_double_eval of_count_def scaled_def

lemmas stream_eval = draw_stream_eval stream_cons_eval draw_state_def draw_y_def draw_c_def
  draw_done_def draw_stream.simps(1)

section \<open>The generator as a consumer of the stream of draws\<close>

lemma nextInt_eq:
  "nextInt m p = (scaled (next_state (state p)) m, p\<lparr>state := next_state (state p)\<rparr>)"
  by (simp add: nextInt_def next_def Let_def scaled_def)

lemma draw_eq:
  "draw p = (fst (draw_state (width p) (height p) (state p)),
             p\<lparr>state := snd (draw_state (width p) (height p) (state p))\<rparr>)"
  by (simp add: draw_def nextInt_eq draw_state_def draw_y_def draw_c_def draw_done_def)

lemma pick_draw_unique:
  assumes "pick used (draw_stream (width p) (height p) n (state p)) = Some ((l, s), r)"
  shows "draw_unique used p = Some (l, p\<lparr>state := s\<rparr>)
         \<and> (\<exists>m. r = draw_stream (width p) (height p) m s)"
  using assms
proof (induction n arbitrary: p)
  case 0
  then show ?case by simp
next
  case (Suc n)
  define d where "d = draw_state (width p) (height p) (state p)"
  define p1 where "p1 = p\<lparr>state := snd d\<rparr>"
  have dr: "draw p = (fst d, p1)" by (simp add: draw_eq d_def p1_def)
  have p1: "width p1 = width p" "height p1 = height p" "state p1 = snd d"
    by (simp_all add: p1_def)
  have du: "draw_unique used p = (if fst d \<in> used then draw_unique used p1 else Some (fst d, p1))"
    by (subst draw_unique.simps) (simp add: dr)
  show ?case
  proof (cases "fst d \<in> used")
    case True
    then have "pick used (draw_stream (width p1) (height p1) n (state p1)) = Some ((l, s), r)"
      using Suc.prems by (simp add: d_def[symmetric] p1)
    from Suc.IH[OF this] show ?thesis using True du by (simp add: p1 p1_def)
  next
    case False
    then have e: "d = (l, s)" and "r = draw_stream (width p) (height p) n (snd d)"
      using Suc.prems by (auto simp: d_def[symmetric])
    then have "r = draw_stream (width p) (height p) n s" by simp
    then show ?thesis using False du e by (auto simp: p1_def)
  qed
qed

lemma run_loop_sequence_loop:
  assumes "\<exists>k. ds = draw_stream (width p) (height p) k (state p)"
    and "run_loop n sq used (state p) ds = Some (sq', s', r)"
  shows "sequence_loop n sq used p = Some (sq', p\<lparr>state := s'\<rparr>)
         \<and> (\<exists>m. r = draw_stream (width p) (height p) m s')"
  using assms
proof (induction n arbitrary: sq used p ds)
  case 0
  then show ?case by auto
next
  case (Suc n)
  from Suc.prems(1) obtain k where ds: "ds = draw_stream (width p) (height p) k (state p)" by blast
  show ?case
  proof (cases "pick used ds")
    case None
    with Suc.prems(2) show ?thesis by simp
  next
    case (Some a)
    obtain l s1 r1 where a: "a = ((l, s1), r1)" by (cases a) auto
    have pk: "pick used (draw_stream (width p) (height p) k (state p)) = Some ((l, s1), r1)"
      using Some a ds by simp
    define p1 where "p1 = p\<lparr>state := s1\<rparr>"
    have p1: "width p1 = width p" "height p1 = height p" "state p1 = s1"
      by (simp_all add: p1_def)
    from pick_draw_unique[OF pk] obtain m where
      du: "draw_unique used p = Some (l, p1)" and r1: "r1 = draw_stream (width p) (height p) m s1"
      by (auto simp: p1_def)
    have rest: "run_loop n (sq @ [l]) (insert l used) (state p1) r1 = Some (sq', s', r)"
      using Suc.prems(2) Some a by (simp add: p1)
    have "\<exists>k. r1 = draw_stream (width p1) (height p1) k (state p1)"
      using r1 by (auto simp: p1)
    from Suc.IH[OF this rest] show ?thesis using du by (simp add: p1 p1_def)
  qed
qed

lemma run_loop_generatePixelSequence:
  assumes "ds = draw_stream (width p) (height p) k (state p)"
    and "run_loop n [] {} (state p) ds = Some (sq, s', r)"
  shows "generatePixelSequence n p = Some (sq, p\<lparr>state := s'\<rparr>)"
proof -
  have "\<exists>k. ds = draw_stream (width p) (height p) k (state p)" using assms(1) by blast
  from run_loop_sequence_loop[OF this assms(2)] show ?thesis
    by (simp add: generatePixelSequence_def)
qed

lemma run_loop_generatePixelSequence_twice:
  assumes "ds = draw_stream (width p) (height p) k (state p)"
    and "run_loop n1 [] {} (state p) ds = Some (sq1, s1, r1)"
    and "run_loop n2 [] {} s1 r1 = Some (sq2, s2, r2)"
  shows "generatePixelSequence n1 p = Some (sq1, p\<lparr>state := s1\<rparr>)"
    and "generatePixelSequence n2 (p\<lparr>state := s1\<rparr>) = Some (sq2, p\<lparr>state := s2\<rparr>)"
proof -
  have "\<exists>k. ds = draw_stream (width p) (height p) k (state p)" using assms(1) by blast
  from run_loop_sequence_loop[OF this assms(2)]
  obtain m where 1: "sequence_loop n1 [] {} p = Some (sq1, p\<lparr>state := s1\<rparr>)"
    and r1: "r1 = draw_stream (width p) (height p) m s1" by blast
  show "generatePixelSequence n1 p = Some (sq1, p\<lparr>state := s1\<rparr>)"
    using 1 by (simp add: generatePixelSequence_def)
  have "\<exists>k. r1 = draw_stream (width (p\<lparr>state := s1\<rparr>)) (height (p\<lparr>state := s1\<rparr>)) k
            (state (p\<lparr>state := s1\<rparr>))"
    using r1 by auto
  from run_loop_sequence_loop[OF this, of n2 "[]" "{}" sq2 s2 r2] assms(3)
  show "generatePixelSequence n2 (p\<lparr>state := s1\<rparr>) = Some (sq2, p\<lparr>state := s2\<rparr>)"
    by (simp add: generatePixelSequence_def)
qed

lemma draw_stream_append:
  "draw_stream w h (m + n) s
     = draw_stream w h m s @ draw_stream w h n (stream_end s (draw_stream w h m s))"
proof (induction m arbitrary: s)
  case 0
  then show ?case by (simp add: stream_end_def)
next
  case (Suc m)
  show ?case
  proof (cases m)
    case 0
    then show ?thesis by (simp add: stream_end_def)
  next
    case (Suc m')
    then have "draw_stream w h m (snd (draw_state w h s)) \<noteq> []" by simp
    then show ?thesis using Suc.IH[of "snd (draw_state w h s)"] by (simp add: stream_end_def)
  qed
qed

lemma draw_stream_chunk:
  assumes "draw_stream w h m s = ds" "draw_stream w h n (stream_end s ds) = ds'"
  shows "draw_stream w h (m + n) s = ds @ ds'"
  using assms by (simp add: draw_stream_append)

lemma run_sequence_correct:
  assumes "ds = draw_stream (width p) (height p) k (state p)"
    and "run_sequence n (state p) ds = Some (sq, s')"
  shows "generatePixelSequence n p = Some (sq, p\<lparr>state := s'\<rparr>)"
proof -
  from assms(2) obtain r where "run_loop n [] {} (state p) ds = Some (sq, s', r)"
    by (auto simp: run_sequence_def split: option.splits)
  with assms(1) show ?thesis by (rule run_loop_generatePixelSequence)
qed

lemma run_twice_correct:
  assumes "ds = draw_stream (width p) (height p) k (state p)"
    and "run_twice n1 n2 (state p) ds = Some ((sq1, s1), (sq2, s2))"
  shows "generatePixelSequence n1 p = Some (sq1, p\<lparr>state := s1\<rparr>)"
    and "generatePixelSequence n2 (p\<lparr>state := s1\<rparr>) = Some (sq2, p\<lparr>state := s2\<rparr>)"
proof -
  from assms(2) obtain r1 r2 where 1: "run_loop n1 [] {} (state p) ds = Some (sq1, s1, r1)"
    and 2: "run_loop n2 [] {} s1 r1 = Some (sq2, s2, r2)"
    by (auto simp: run_twice_def split: option.splits)
  show "generatePixelSequence n1 p = Some (sq1, p\<lparr>state := s1\<rparr>)"
    using assms(1) 1 2 by (rule run_loop_generatePixelSequence_twice(1))
  show "generatePixelSequence n2 (p\<lparr>state := s1\<rparr>) = Some (sq2, p\<lparr>state := s2\<rparr>)"
    using assms(1) 1 2 by (rule run_loop_generatePixelSequence_twice(2))
qed

lemma run_loop_eval:
  "run_loop (numeral k) sq used s ds =
     (case pick used ds of
        None \<Rightarrow> None
      | Some (d, ds') \<Rightarrow> run_loop (pred_numeral k) (sq @ [fst d]) (insert (fst d) used) (snd d) ds')"
  "run_loop 1 sq used s ds =
     (case pick used ds of
        None \<Rightarrow> None
      | Some (d, ds') \<Rightarrow> run_loop 0 (sq @ [fst d]) (insert (fst d) used) (snd d) ds')"
  by (simp_all add: numeral_eq_Suc)

section \<open>Keys with the same accumulator\<close>

lemma generateSeed_seed_of: "generateSeed k = seed_of (key_value 0 k)"
  by (simp add: generateSeed_def seed_of_def)

lemma key_value_range:
  "0 \<le> v \<Longrightarrow> v < 1000 \<Longrightarrow> 0 \<le> key_value v k \<and> key_value v k < 1000"
  by (induction k arbitrary: v) simp_all

lemma draw_rekey: "draw (rekey k p) = (fst (draw p), rekey k (snd (draw p)))"
  by (simp add: draw_eq rekey_def)

lemma draw_unique_rekey_Some:
  assumes "draw_unique used p = Some a"
  shows "draw_unique used (rekey k p) = Some (fst a, rekey k (snd a))"
proof (rule draw_unique.raw_induct[where P = "\<lambda>used p a.
    draw_unique used (rekey k p) = Some (fst a, rekey k (snd a))", OF _ assms])
  fix f used p a
  assume IH: "\<And>used p a. f used p = Some a \<Longrightarrow>
      draw_unique used (rekey k p) = Some (fst a, rekey k (snd a))"
    and step: "(case draw p of (l, p') \<Rightarrow> if l \<in> used then f used p' else Some (l, p')) = Some a"
  obtain l p1 where d: "draw p = (l, p1)" by (cases "draw p")
  have dk: "draw (rekey k p) = (l, rekey k p1)" by (simp add: draw_rekey d)
  show "draw_unique used (rekey k p) = Some (fst a, rekey k (snd a))"
  proof (cases "l \<in> used")
    case True
    then have "f used p1 = Some a" using step d by simp
    from IH[OF this] show ?thesis
      using True by (subst draw_unique.simps) (simp add: dk)
  next
    case False
    then have "a = (l, p1)" using step d by simp
    then show ?thesis using False by (subst draw_unique.simps) (simp add: dk)
  qed
qed

lemma rekey_rekey: "rekey (key p) (rekey k p) = p"
  by (simp add: rekey_def)

lemma draw_unique_rekey:
  "draw_unique used (rekey k p) = map_option (\<lambda>a. (fst a, rekey k (snd a))) (draw_unique used p)"
proof (cases "draw_unique used p")
  case (Some a)
  then show ?thesis by (simp add: draw_unique_rekey_Some)
next
  case None
  show ?thesis
  proof (cases "draw_unique used (rekey k p)")
    case (Some b)
    from draw_unique_rekey_Some[OF this, of "key p"] None show ?thesis
      by (simp add: rekey_rekey)
  next
    case None': None
    with None show ?thesis by simp
  qed
qed

lemma sequence_loop_rekey:
  "sequence_loop n sq used (rekey k p)
     = map_option (\<lambda>a. (fst a, rekey k (snd a))) (sequence_loop n sq used p)"
proof (induction n arbitrary: sq used p)
  case 0
  then show ?case by simp
next
  case (Suc n)
  show ?case
  proof (cases "draw_unique used p")
    case None
    then show ?thesis by (simp add: draw_unique_rekey)
  next
    case (Some a)
    obtain l p1 where a: "a = (l, p1)" by (cases a)
    show ?thesis using Some a Suc.IH[of "sq @ [l]" "insert l used" p1]
      by (simp add: draw_unique_rekey)
  qed
qed

lemma generatePixelSequence_rekey:
  "generatePixelSequence n (rekey k p)
     = map_option (\<lambda>a. (fst a, rekey k (snd a))) (generatePixelSequence n p)"
  by (simp add: generatePixelSequence_def sequence_loop_rekey)

lemma new_ChaosPRNG_rekey:
  assumes "key_value 0 k1 = key_value 0 k2"
  shows "new_ChaosPRNG k2 w h = rekey k2 (new_ChaosPRNG k1 w h)"
  using assms by (simp add: new_ChaosPRNG_def rekey_def generateSeed_seed_of)

lemma generatePixelSequence_same_value:
  assumes "key_value 0 k1 = key_value 0 k2"
  shows "generatePixelSequence n (new_ChaosPRNG k2 w h)
     = map_option (\<lambda>a. (fst a, rekey k2 (snd a))) (generatePixelSequence n (new_ChaosPRNG k1 w h))"
  by (simp only: new_ChaosPRNG_rekey[OF assms] generatePixelSequence_rekey)

lemma encode_same_value:
  assumes "key_value 0 k1 = key_value 0 k2"
  shows "encode img m k2 = encode img m k1"
  by (simp add: encode_def Let_def generatePixelSequence_same_value[OF assms]
      split: option.splits prod.splits)

lemma decode_same_value:
  assumes "key_value 0 k1 = key_value 0 k2"
  shows "decode img k2 = decode img k1"
proof -
  define w where "w = imgWidth img"
  define h where "h = imgHeight img"
  show ?thesis
  proof (cases "generatePixelSequence 32 (new_ChaosPRNG k1 w h)")
    case None
    then show ?thesis
      by (simp add: decode_def Let_def generatePixelSequence_same_value[OF assms] w_def h_def)
  next
    case (Some a)
    obtain ls p1 where a: "a = (ls, p1)" by (cases a)
    have 1: "generatePixelSequence 32 (new_ChaosPRNG k1 w h) = Some (ls, p1)" using Some a by simp
    have 2: "generatePixelSequence 32 (new_ChaosPRNG k2 w h) = Some (ls, rekey k2 p1)"
      by (simp add: generatePixelSequence_same_value[OF assms] 1)
    show ?thesis
      unfolding decode_def Let_def w_def[symmetric] h_def[symmetric] 1 2
      by (simp add: generatePixelSequence_rekey split: option.splits)
  qed
qed

section \<open>Lengths of the bit strings\<close>

lemma bin_digits_length: "n < 2 ^ k \<Longrightarrow> 0 < k \<Longrightarrow> length (bin_digits n) \<le> k"
proof (induction n arbitrary: k rule: bin_digits.induct)
  case (1 n)
  show ?case
  proof (cases "n < 2")
    case True
    then show ?thesis using "1.prems" by (subst bin_digits.simps) simp
  next
    case False
    obtain j where k: "k = Suc j" using "1.prems"(2) by (cases k) auto
    have "n div 2 < 2 ^ j" using "1.prems"(1) k by auto
    moreover have "0 < j" using False "1.prems"(1) k by (cases j) auto
    ultimately have "length (bin_digits (n div 2)) \<le> j" using "1.IH"[OF False] by simp
    then show ?thesis using False k by (subst bin_digits.simps) simp
  qed
qed

lemma length_padStart: "length bs \<le> k \<Longrightarrow> length (padStart k bs) = k"
  by (simp add: padStart_def)

lemma length_stringToBinary: "length (stringToBinary s) = 16 * length s"
proof (induction s)
  case Nil
  then show ?case by simp
next
  case (Cons c s)
  have "unat c < 2 ^ 16" using unsigned_less[of c] by simp
  then have "length (bin_digits (unat c)) \<le> 16" by (rule bin_digits_length) simp
  then show ?case using Cons by (simp add: length_padStart)
qed

lemma length_fullBinary:
  assumes "16 * length m < 2 ^ 32"
  shows "length (fullBinary m) = 32 + 16 * length m"
proof -
  have "length (bin_digits (16 * length m)) \<le> 32" using assms by (rule bin_digits_length) simp
  then show ?thesis by (simp add: fullBinary_def Let_def length_padStart length_stringToBinary)
qed

lemma length_binaryToString: "length (binaryToString bs) = (length bs + 15) div 16"
proof (induction bs rule: binaryToString.induct)
  case 1
  then show ?case by simp
next
  case (2 b bs)
  show ?case
  proof (cases "length bs < 16")
    case True
    then show ?thesis by simp
  next
    case False
    then show ?thesis using 2 by simp
  qed
qed

lemma binaryToString_Nil_iff: "binaryToString bs = [] \<longleftrightarrow> bs = []"
  by (cases bs) simp_all

lemma last_binaryToString:
  "length bs mod 16 \<noteq> 0 \<Longrightarrow>
     last (binaryToString bs) = word_of_nat (parseInt2 (drop (16 * (length bs div 16)) bs))"
proof (induction bs rule: binaryToString.induct)
  case 1
  then show ?case by simp
next
  case (2 b bs)
  define xs where "xs = b # bs"
  show ?case
  proof (cases "length xs < 16")
    case True
    then have "binaryToString xs = [word_of_nat (parseInt2 xs)]"
      by (simp add: xs_def)
    then show ?thesis using True by (simp add: xs_def[symmetric])
  next
    case False
    then have l: "16 \<le> length xs" by simp
    have m: "length (drop 16 xs) mod 16 \<noteq> 0"
      using "2.prems" l by (simp add: xs_def[symmetric] le_mod_geq)
    then have ne: "drop 16 xs \<noteq> []" by auto
    have d: "length (drop 16 xs) div 16 + 1 = length xs div 16"
      using l by (simp add: le_div_geq)
    have "last (binaryToString xs) = last (binaryToString (drop 16 xs))"
      using ne by (simp add: xs_def binaryToString_Nil_iff)
    also have "\<dots> = word_of_nat (parseInt2
        (drop (16 * (length (drop 16 xs) div 16)) (drop 16 xs)))"
      using "2.IH" m by (simp add: xs_def[symmetric])
    also have "drop (16 * (length (drop 16 xs) div 16)) (drop 16 xs)
        = drop (16 * (length xs div 16)) xs"
      by (simp only: drop_drop d[symmetric]) (simp add: algebra_simps)
    finally show ?thesis by (simp only: xs_def[symmetric])
  qed
qed

section \<open>What encode returns\<close>

lemma encode_Some:
  assumes "encode img m k = Some out"
  obtains sq p' where
    "generatePixelSequence (length (fullBinary m)) (new_ChaosPRNG k (imgWidth img) (imgHeight img))
       = Some (sq, p')"
    "out = img\<lparr>data := embed (data img) (imgWidth img) sq (fullBinary m)\<rparr>"
  using assms by (auto simp: encode_def Let_def split: option.splits)

lemma draw_channel:
  assumes "draw p = (l, p')"
  shows "0 \<le> channel l \<and> channel l < 3"
proof -
  obtain xv p1 where 1: "nextInt (width p) p = (xv, p1)" by (cases "nextInt (width p) p")
  obtain yv p2 where 2: "nextInt (height p1) p1 = (yv, p2)" by (cases "nextInt (height p1) p1")
  obtain cv p3 where 3: "nextInt 3 p2 = (cv, p3)" by (cases "nextInt 3 p2")
  have l: "l = Location xv yv cv" using assms 1 2 3 by (simp add: draw_def)
  have "0 \<le> cv \<and> cv < 3" using nextInt_range[of 3 p2] 3 by simp
  then show ?thesis by (simp add: l)
qed

lemma draw_unique_channel:
  assumes "draw_unique used p = Some a"
  shows "0 \<le> channel (fst a) \<and> channel (fst a) < 3"
proof (rule draw_unique.raw_induct[where P = "\<lambda>used p a. 0 \<le> channel (fst a) \<and> channel (fst a) < 3",
      OF _ assms])
  fix f used p a
  assume IH: "\<And>used p a. f used p = Some a \<Longrightarrow> 0 \<le> channel (fst a) \<and> channel (fst a) < 3"
    and step: "(case draw p of (l, p') \<Rightarrow> if l \<in> used then f used p' else Some (l, p')) = Some a"
  obtain l1 p1 where d: "draw p = (l1, p1)" by (cases "draw p")
  show "0 \<le> channel (fst a) \<and> channel (fst a) < 3"
  proof (cases "l1 \<in> used")
    case True
    then have "f used p1 = Some a" using step d by simp
    then show ?thesis by (rule IH)
  next
    case False
    then have "a = (l1, p1)" using step d by simp
    then show ?thesis using draw_channel[OF d] by simp
  qed
qed

lemma sequence_loop_channel:
  assumes "sequence_loop n sq used p = Some (sq', p')"
    and "\<forall>l\<in>set sq. 0 \<le> channel l \<and> channel l < 3"
  shows "\<forall>l\<in>set sq'. 0 \<le> channel l \<and> channel l < 3"
  using assms
proof (induction n arbitrary: sq used p)
  case 0
  then show ?case by simp
next
  case (Suc n)
  show ?case
  proof (cases "draw_unique used p")
    case None
    with Suc.prems show ?thesis by simp
  next
    case (Some a)
    obtain l p1 where a: "a = (l, p1)" by (cases a)
    have rest: "sequence_loop n (sq @ [l]) (insert l used) p1 = Some (sq', p')"
      using Suc.prems(1) Some a by simp
    have "0 \<le> channel l \<and> channel l < 3" using draw_unique_channel[OF Some] a by simp
    then have "\<forall>l\<in>set (sq @ [l]). 0 \<le> channel l \<and> channel l < 3"
      using Suc.prems(2) by simp
    with rest show ?thesis by (rule Suc.IH)
  qed
qed

lemma generatePixelSequence_channel:
  assumes "generatePixelSequence n p = Some (sq, p')"
  shows "\<forall>l\<in>set sq. 0 \<le> channel l \<and> channel l < 3"
  using sequence_loop_channel[OF assms[unfolded generatePixelSequence_def]] by simp

lemma embed_alpha:
  assumes "\<forall>l\<in>set sq. 0 \<le> channel l \<and> channel l < 3" "i < length d" "i mod 4 = 3"
  shows "embed d w sq bs ! i = d ! i"
proof (rule embed_unselected[OF assms(2)])
  show "int i \<notin> byte_offset w ` set sq"
  proof
    assume "int i \<in> byte_offset w ` set sq"
    then obtain l where l: "l \<in> set sq" "int i = byte_offset w l" by auto
    then have "int i mod 4 = channel l" using byte_offset_channel[of l w] assms(1) by simp
    moreover have "int i mod 4 = 3" using assms(3) by presburger
    ultimately show False using assms(1) l(1) by auto
  qed
qed

lemma lsb_at_replicate:
  assumes "wf_loc w h l"
  shows "lsb_at (replicate (w * h * 4) v) w l = (v AND 1 = 1)"
proof -
  have "0 \<le> byte_offset w l" "byte_offset w l < int (w * h * 4)"
    using byte_offset_range[OF assms] by simp_all
  then show ?thesis
    by (simp add: lsb_at_def read_byte_def byte_offset_def[symmetric] nat_less_iff)
qed

lemma lsb_at_encoded:
  assumes g: "generatePixelSequence (length bs) (new_ChaosPRNG k w h) = Some (sq, p')"
    and w: "0 < w" and h: "0 < h" and l: "wf_loc w h l"
  shows "lsb_at (embed (replicate (w * h * 4) v) w sq bs) w l
           = lookup_bit (zip sq bs) (v AND 1 = 1) l"
proof -
  have wf: "\<forall>l\<in>set sq. wf_loc w h l"
    using generatePixelSequence_Some(5)[OF g] w h by (simp add: new_ChaosPRNG_def)
  have "lsb_at (embed (replicate (w * h * 4) v) w sq bs) w l
      = (case map_of (zip sq bs) l of None \<Rightarrow> lsb_at (replicate (w * h * 4) v) w l | Some b \<Rightarrow> b)"
    using wf generatePixelSequence_Some(2)[OF g] _ generatePixelSequence_Some(1)[OF g] l
    by (rule lsb_at_embed) simp
  then show ?thesis by (simp add: lookup_bit_def lsb_at_replicate[OF l] split: option.splits)
qed

lemma map_lsb_at_encoded:
  assumes g: "generatePixelSequence (length bs) (new_ChaosPRNG k w h) = Some (sq, p')"
    and w: "0 < w" and h: "0 < h" and ls: "\<forall>l\<in>set ls. wf_loc w h l"
  shows "map (lsb_at (embed (replicate (w * h * 4) v) w sq bs) w) ls
           = map (lookup_bit (zip sq bs) (v AND 1 = 1)) ls"
  using ls by (intro map_cong refl lsb_at_encoded[OF g w h]) simp

lemma encode_eq:
  assumes "generatePixelSequence (length (fullBinary m)) (new_ChaosPRNG k w h) = Some (sq, p')"
  shows "encode \<lparr>data = d, imgWidth = w, imgHeight = h\<rparr> m k
           = Some \<lparr>data = embed d w sq (fullBinary m), imgWidth = w, imgHeight = h\<rparr>"
  by (simp add: encode_def Let_def assms)

lemma decode_eq:
  assumes "generatePixelSequence 32 (new_ChaosPRNG k w h) = Some (ls, p1)"
    and "parseInt2 (map (lsb_at d w) ls) = n" and "0 < n" and "n \<le> w * h * 3"
    and "generatePixelSequence n p1 = Some (ms, p2)"
  shows "decode \<lparr>data = d, imgWidth = w, imgHeight = h\<rparr> k
           = Some (Text (binaryToString (map (lsb_at d w) ms)))"
  using assms(3,4) by (simp add: decode_def Let_def assms(1,2,5))

text \<open>Decoding an image that \<open>encode\<close> made from a buffer of equal bytes, by lookup in the
  list of written bits.\<close>

lemma decode_encoded:
  assumes g: "generatePixelSequence (length (fullBinary m)) (new_ChaosPRNG k w h) = Some (sq, p')"
    and w: "0 < w" and h: "0 < h"
    and hdr: "generatePixelSequence 32 (new_ChaosPRNG k w h) = Some (ls, p1)"
    and n: "parseInt2 (map (lookup_bit (zip sq (fullBinary m)) (v AND 1 = 1)) ls) = n"
    and n0: "0 < n" and n1: "n \<le> w * h * 3"
    and body: "generatePixelSequence n p1 = Some (ms, p2)"
  shows "encode \<lparr>data = replicate (w * h * 4) v, imgWidth = w, imgHeight = h\<rparr> m k
           = Some \<lparr>data = embed (replicate (w * h * 4) v) w sq (fullBinary m),
                   imgWidth = w, imgHeight = h\<rparr>"
    and "decode \<lparr>data = embed (replicate (w * h * 4) v) w sq (fullBinary m),
                 imgWidth = w, imgHeight = h\<rparr> k
           = Some (Text (binaryToString
                (map (lookup_bit (zip sq (fullBinary m)) (v AND 1 = 1)) ms)))"
    and "parseInt2 (map (lsb_at (embed (replicate (w * h * 4) v) w sq (fullBinary m)) w) ls) = n"
proof -
  show "encode \<lparr>data = replicate (w * h * 4) v, imgWidth = w, imgHeight = h\<rparr> m k
           = Some \<lparr>data = embed (replicate (w * h * 4) v) w sq (fullBinary m),
                   imgWidth = w, imgHeight = h\<rparr>"
    by (simp add: encode_def Let_def g)
  have wls: "\<forall>l\<in>set ls. wf_loc w h l"
    using generatePixelSequence_Some(5)[OF hdr] w h by (simp add: new_ChaosPRNG_def)
  have p1: "width p1 = w" "height p1 = h"
    using generatePixelSequence_Some(3,4)[OF hdr] by (simp_all add: new_ChaosPRNG_def)
  have wms: "\<forall>l\<in>set ms. wf_loc w h l"
    using generatePixelSequence_Some(5)[OF body] w h p1 by simp
  show len: "parseInt2 (map (lsb_at (embed (replicate (w * h * 4) v) w sq (fullBinary m)) w) ls) = n"
    by (simp only: map_lsb_at_encoded[OF g w h wls] n)
  show "decode \<lparr>data = embed (replicate (w * h * 4) v) w sq (fullBinary m),
                 imgWidth = w, imgHeight = h\<rparr> k
           = Some (Text (binaryToString
                (map (lookup_bit (zip sq (fullBinary m)) (v AND 1 = 1)) ms)))"
    using n0 n1 by (simp add: decode_def Let_def hdr len body map_lsb_at_encoded[OF g w h wms])
qed

section \<open>The draws for the key "a" in an image of 228 by 1 pixels\<close>

lemma key_value_a: "key_value 0 [97] = 649"
  by simp

lemma fdiv_649: "fdiv_int 649 1000 = Double 5845672316326904 (- 53)"
  unfolding fdiv_int_def by (simp add: bitlen_numeral round_double_eval round_to_def renormalize_def pick_nearest_def)

lemma burn_in_a_1: "(logistic ^^ 25) (Double 5845672316326904 (- 53)) = Double 4923187850434483 (- 54)"
  by (simp add: double_eval funpow_eval)

lemma burn_in_a_2: "(logistic ^^ 25) (Double 4923187850434483 (- 54)) = Double 7681482999817874 (- 54)"
  by (simp add: double_eval funpow_eval)

lemma burn_in_a_3: "(logistic ^^ 25) (Double 7681482999817874 (- 54)) = Double 5684686929914003 (- 53)"
  by (simp add: double_eval funpow_eval)

lemma burn_in_a_4: "(logistic ^^ 25) (Double 5684686929914003 (- 53)) = Double 8541737037572561 (- 53)"
  by (simp add: double_eval funpow_eval)

lemma funpow_100:
  "(f ^^ 100) v = (f ^^ 25) ((f ^^ 25) ((f ^^ 25) ((f ^^ 25) v)))"
proof -
  have "(100::nat) = 25 + 25 + 25 + 25" by simp
  then show ?thesis by (simp only: funpow_add o_apply)
qed

lemma generateSeed_a: "generateSeed [97] = Double 8541737037572561 (- 53)"
proof -
  have "\<not> (le_zero (Double 5845672316326904 (- 53)) \<or> ge_one (Double 5845672316326904 (- 53)))"
    by (simp add: le_zero_eval ge_one_eval)
  then show ?thesis
    unfolding generateSeed_def key_value_a fdiv_649 Let_def
    by (simp only: if_False funpow_100 burn_in_a_1 burn_in_a_2 burn_in_a_3 burn_in_a_4)
qed

lemma stream_a_1_eval:
  "draw_stream 228 1 15 (Double 8541737037572561 (- 53)) = stream_a_1"
  unfolding stream_a_1_def by (simp add: double_eval stream_eval)

lemma stream_a_1_end: "stream_end s stream_a_1 = Double 8632239350026831 (- 53)"
  by (simp add: stream_end_def stream_a_1_def)

lemma stream_a_2_eval:
  "draw_stream 228 1 15 (Double 8632239350026831 (- 53)) = stream_a_2"
  unfolding stream_a_2_def by (simp add: double_eval stream_eval)

lemma stream_a_2_end: "stream_end s stream_a_2 = Double 8775047317226362 (- 53)"
  by (simp add: stream_end_def stream_a_2_def)

lemma stream_a_3_eval:
  "draw_stream 228 1 15 (Double 8775047317226362 (- 53)) = stream_a_3"
  unfolding stream_a_3_def by (simp add: double_eval stream_eval)

lemma stream_a_3_end: "stream_end s stream_a_3 = Double 6479391940518114 (- 55)"
  by (simp add: stream_end_def stream_a_3_def)

lemma stream_a_4_eval:
  "draw_stream 228 1 15 (Double 6479391940518114 (- 55)) = stream_a_4"
  unfolding stream_a_4_def by (simp add: double_eval stream_eval)

lemma stream_a_4_end: "stream_end s stream_a_4 = Double 7432263073239900 (- 54)"
  by (simp add: stream_end_def stream_a_4_def)

lemma stream_a_5_eval:
  "draw_stream 228 1 15 (Double 7432263073239900 (- 54)) = stream_a_5"
  unfolding stream_a_5_def by (simp add: double_eval stream_eval)

lemma stream_a_5_end: "stream_end s stream_a_5 = Double 5995288295340327 (- 53)"
  by (simp add: stream_end_def stream_a_5_def)

lemma stream_a_correct: "draw_stream 228 1 75 (generateSeed [97]) = stream_a"
proof -
  have c4: "draw_stream 228 1 (15 + 15) (Double 6479391940518114 (- 55)) = stream_a_4 @ stream_a_5"
    by (rule draw_stream_chunk[OF stream_a_4_eval]) (simp only: stream_a_4_end stream_a_5_eval)
  have c3: "draw_stream 228 1 (15 + (15 + 15)) (Double 8775047317226362 (- 53)) = stream_a_3 @ stream_a_4 @ stream_a_5"
    by (rule draw_stream_chunk[OF stream_a_3_eval]) (simp only: stream_a_3_end c4)
  have c2: "draw_stream 228 1 (15 + (15 + (15 + 15))) (Double 8632239350026831 (- 53)) = stream_a_2 @ stream_a_3 @ stream_a_4 @ stream_a_5"
    by (rule draw_stream_chunk[OF stream_a_2_eval]) (simp only: stream_a_2_end c3)
  have c1: "draw_stream 228 1 (15 + (15 + (15 + (15 + 15)))) (Double 8541737037572561 (- 53)) = stream_a_1 @ stream_a_2 @ stream_a_3 @ stream_a_4 @ stream_a_5"
    by (rule draw_stream_chunk[OF stream_a_1_eval]) (simp only: stream_a_1_end c2)
  have "(75::nat) = 15 + (15 + (15 + (15 + 15)))" by simp
  then show ?thesis unfolding stream_a_def generateSeed_a using c1 by (simp only:)
qed

lemma new_ChaosPRNG_sel [simp]:
  "width (new_ChaosPRNG k w h) = w" "height (new_ChaosPRNG k w h) = h"
  "state (new_ChaosPRNG k w h) = generateSeed k" "key (new_ChaosPRNG k w h) = k"
  by (simp_all add: new_ChaosPRNG_def)

lemma stream_a_prng:
  "stream_a = draw_stream (width (new_ChaosPRNG [97] 228 1)) (height (new_ChaosPRNG [97] 228 1)) 75 (state (new_ChaosPRNG [97] 228 1))"
  by (simp only: new_ChaosPRNG_sel stream_a_correct)

lemmas run_eval = run_sequence_def run_twice_def run_loop_eval run_loop.simps(1) pick.simps
  stream_a_def stream_a_1_def stream_a_2_def stream_a_3_def stream_a_4_def stream_a_5_def
  header_a_def body_a_16_def body_a_enc_def body_a_dec_def

lemma sequence_a_32_run: "run_sequence 32 (Double 8541737037572561 (- 53)) stream_a = Some (header_a, Double 7624491945421195 (- 53))"
  by (simp add: run_eval)

lemma sequence_a_32: "generatePixelSequence 32 (new_ChaosPRNG [97] 228 1) = Some (header_a, (new_ChaosPRNG [97] 228 1)\<lparr>state := Double 7624491945421195 (- 53)\<rparr>)"
  using run_sequence_correct[OF stream_a_prng, of 32 "header_a" "Double 7624491945421195 (- 53)"]
  by (simp only: new_ChaosPRNG_sel generateSeed_a sequence_a_32_run simp_thms)

lemma sequence_a_48_run: "run_sequence 48 (Double 8541737037572561 (- 53)) stream_a = Some (header_a @ body_a_16, Double 6513241491169623 (- 54))"
  by (simp add: run_eval)

lemma sequence_a_48: "generatePixelSequence 48 (new_ChaosPRNG [97] 228 1) = Some (header_a @ body_a_16, (new_ChaosPRNG [97] 228 1)\<lparr>state := Double 6513241491169623 (- 54)\<rparr>)"
  using run_sequence_correct[OF stream_a_prng, of 48 "header_a @ body_a_16" "Double 6513241491169623 (- 54)"]
  by (simp only: new_ChaosPRNG_sel generateSeed_a sequence_a_48_run simp_thms)

lemma sequence_a_64_run: "run_sequence 64 (Double 8541737037572561 (- 53)) stream_a = Some (header_a @ body_a_16 @ body_a_enc, Double 5995288295340327 (- 53))"
  by (simp add: run_eval)

lemma sequence_a_64: "generatePixelSequence 64 (new_ChaosPRNG [97] 228 1) = Some (header_a @ body_a_16 @ body_a_enc, (new_ChaosPRNG [97] 228 1)\<lparr>state := Double 5995288295340327 (- 53)\<rparr>)"
  using run_sequence_correct[OF stream_a_prng, of 64 "header_a @ body_a_16 @ body_a_enc" "Double 5995288295340327 (- 53)"]
  by (simp only: new_ChaosPRNG_sel generateSeed_a sequence_a_64_run simp_thms)

lemma sequence_a_32_16_run:
  "run_twice 32 16 (Double 8541737037572561 (- 53)) stream_a = Some ((header_a, Double 7624491945421195 (- 53)), (body_a_16, Double 6513241491169623 (- 54)))"
  by (simp add: run_eval)

lemma sequence_a_32_16:
  "generatePixelSequence 16 ((new_ChaosPRNG [97] 228 1)\<lparr>state := Double 7624491945421195 (- 53)\<rparr>) = Some (body_a_16, (new_ChaosPRNG [97] 228 1)\<lparr>state := Double 6513241491169623 (- 54)\<rparr>)"
  using run_twice_correct(2)[OF stream_a_prng, of 32 16 "header_a" "Double 7624491945421195 (- 53)" "body_a_16" "Double 6513241491169623 (- 54)"]
  by (simp only: new_ChaosPRNG_sel generateSeed_a sequence_a_32_16_run simp_thms)

lemma sequence_a_32_32_run:
  "run_twice 32 32 (Double 8541737037572561 (- 53)) stream_a = Some ((header_a, Double 7624491945421195 (- 53)), (body_a_dec, Double 5657868353277929 (- 53)))"
  by (simp add: run_eval)

lemma sequence_a_32_32:
  "generatePixelSequence 32 ((new_ChaosPRNG [97] 228 1)\<lparr>state := Double 7624491945421195 (- 53)\<rparr>) = Some (body_a_dec, (new_ChaosPRNG [97] 228 1)\<lparr>state := Double 5657868353277929 (- 53)\<rparr>)"
  using run_twice_correct(2)[OF stream_a_prng, of 32 32 "header_a" "Double 7624491945421195 (- 53)" "body_a_dec" "Double 5657868353277929 (- 53)"]
  by (simp only: new_ChaosPRNG_sel generateSeed_a sequence_a_32_32_run simp_thms)

lemma sequence_a_32_1_run:
  "run_twice 32 1 (Double 8541737037572561 (- 53)) stream_a = Some ((header_a, Double 7624491945421195 (- 53)), ([Location 115 0 0], Double 6897939652721580 (- 56)))"
  by (simp add: run_eval)

lemma sequence_a_32_1:
  "generatePixelSequence 1 ((new_ChaosPRNG [97] 228 1)\<lparr>state := Double 7624491945421195 (- 53)\<rparr>) = Some ([Location 115 0 0], (new_ChaosPRNG [97] 228 1)\<lparr>state := Double 6897939652721580 (- 56)\<rparr>)"
  using run_twice_correct(2)[OF stream_a_prng, of 32 1 "header_a" "Double 7624491945421195 (- 53)" "[Location 115 0 0]" "Double 6897939652721580 (- 56)"]
  by (simp only: new_ChaosPRNG_sel generateSeed_a sequence_a_32_1_run simp_thms)

section \<open>The logistic map stays below 0.9751\<close>

lemma scale_powi:
  "0 \<le> k \<Longrightarrow> real_of_int (m * 2 ^ nat k) * 2 powi e = real_of_int m * 2 powi (k + e)"
proof -
  assume "0 \<le> k"
  then have "real_of_int (m * 2 ^ nat k) = real_of_int m * 2 powi k"
    by (simp add: powi_nat_real)
  then have "real_of_int (m * 2 ^ nat k) * 2 powi e = real_of_int m * (2 powi k * 2 powi e)"
    by (simp only: mult.assoc)
  then show ?thesis by (simp only: powi2_add)
qed

lemma val_exact_difference:
  "real_of_int (mant a * 2 ^ nat (expo a - min (expo a) (expo b))
                - mant b * 2 ^ nat (expo b - min (expo a) (expo b)))
     * 2 powi (min (expo a) (expo b)) = val a - val b"
proof -
  define e where "e = min (expo a) (expo b)"
  have a: "real_of_int (mant a * 2 ^ nat (expo a - e)) * 2 powi e = val a"
    using scale_powi[of "expo a - e" "mant a" e] by (simp add: e_def val_def)
  have b: "real_of_int (mant b * 2 ^ nat (expo b - e)) * 2 powi e = val b"
    using scale_powi[of "expo b - e" "mant b" e] by (simp add: e_def val_def)
  have "real_of_int (mant a * 2 ^ nat (expo a - e) - mant b * 2 ^ nat (expo b - e)) * 2 powi e
      = real_of_int (mant a * 2 ^ nat (expo a - e)) * 2 powi e
        - real_of_int (mant b * 2 ^ nat (expo b - e)) * 2 powi e"
    by (simp only: of_int_diff left_diff_distrib)
  then show ?thesis unfolding e_def[symmetric] by (simp only: a b)
qed

lemma mant_round_double_pos: "0 < mant (round_double p e) \<Longrightarrow> 0 < p"
  using mant_round_double_nonpos[of p e] by (cases "p \<le> 0") simp_all

lemma mant_round_double_neg: "mant (round_double p e) < 0 \<Longrightarrow> p < 0"
  using mant_round_double_bound[of p e] by (cases "0 \<le> p") simp_all

lemma unit_roundoff_small: "unit_roundoff \<le> 1 / 1000000"
proof -
  have "(1000000::int) \<le> 2 ^ 20" by simp
  also have "(2::int) ^ 20 \<le> 2 ^ 53" by (rule power_increasing) simp_all
  finally have "real_of_int 1000000 \<le> real_of_int (2 ^ 53)" by (rule of_int_le_iff[THEN iffD2])
  then have "real_of_int 1000000 * unit_roundoff \<le> real_of_int (2 ^ 53) * unit_roundoff"
    using unit_roundoff_pos by (intro mult_right_mono) simp_all
  then have "real_of_int 1000000 * unit_roundoff \<le> 1" by (simp only: unit_roundoff_scale)
  then show ?thesis by simp
qed

lemma tiny_small: "tiny \<le> 1 / 1000000"
proof -
  have "unit_roundoff * unit_roundoff \<le> 1 * unit_roundoff"
    using unit_roundoff_le_half unit_roundoff_pos by (intro mult_right_mono) simp_all
  then show ?thesis using tiny_less unit_roundoff_small by linarith
qed

lemma val_chaos_r: "0 < mant chaos_r" "0 \<le> val chaos_r" "val chaos_r \<le> 39001 / 10000"
proof -
  have s: "real_of_int (2 ^ 51) * 2 powi (- 51) = 1"
  proof -
    have "real_of_int (2 ^ 51) = 2 powi 51" by (simp add: power_int_def)
    then show ?thesis unfolding powi2_add by simp
  qed
  have "(8782019273372467::int) * 10000 \<le> 39001 * 2 ^ 51" by simp
  then have "real_of_int (8782019273372467 * 10000) \<le> real_of_int (39001 * 2 ^ 51)"
    by (rule of_int_le_iff[THEN iffD2])
  then have "real_of_int 8782019273372467 * 10000 \<le> 39001 * real_of_int (2 ^ 51)"
    by (simp only: of_int_mult of_int_numeral)
  then have "real_of_int 8782019273372467 * 10000 * 2 powi (- 51)
               \<le> 39001 * real_of_int (2 ^ 51) * 2 powi (- 51)"
    by (intro mult_right_mono) simp_all
  then have "real_of_int 8782019273372467 * 2 powi (- 51) * 10000 \<le> 39001"
    by (simp only: mult.assoc s mult_1_right mult.commute[of 10000])
  then show "val chaos_r \<le> 39001 / 10000"
    unfolding chaos_r_eval val_def double.sel by linarith
  show "0 < mant chaos_r" by (simp only: chaos_r_eval double.sel zero_less_numeral)
  have "0 \<le> real_of_int 8782019273372467 * 2 powi (- 51)"
    by (intro mult_nonneg_nonneg) simp_all
  then show "0 \<le> val chaos_r" unfolding chaos_r_eval val_def double.sel .
qed

lemma val_fsub_one:
  shows "0 < mant (fsub one s) \<Longrightarrow> val s < 1"
    and "val s \<le> 1 \<Longrightarrow> 0 \<le> mant (fsub one s)"
    and "val s \<le> 1 \<Longrightarrow> val (fsub one s) \<le> (1 - val s) * (1 + unit_roundoff) + tiny"
proof -
  define e where "e = min (expo one) (expo s)"
  define P where "P = mant one * 2 ^ nat (expo one - e) - mant s * 2 ^ nat (expo s - e)"
  have f: "fsub one s = round_double P e"
    by (simp add: fsub_def Let_def e_def P_def)
  have v1: "val one = 1" by (simp add: val_def one_def)
  have v: "real_of_int P * 2 powi e = 1 - val s"
    unfolding P_def e_def val_exact_difference v1 ..
  have pe: "(0::real) < 2 powi e" by simp
  {
    assume "0 < mant (fsub one s)"
    then have "0 < P" unfolding f by (rule mant_round_double_pos)
    then have "0 < real_of_int P * 2 powi e" using pe by (intro mult_pos_pos) simp_all
    then show "val s < 1" unfolding v by simp
  }
  {
    assume "val s \<le> 1"
    then have "0 \<le> real_of_int P * 2 powi e" unfolding v by simp
    then have "0 \<le> real_of_int P" using pe by (simp only: zero_le_mult_iff) linarith
    then have P: "0 \<le> P" by simp
    then show "0 \<le> mant (fsub one s)" unfolding f using mant_round_double_bound by blast
    show "val (fsub one s) \<le> (1 - val s) * (1 + unit_roundoff) + tiny"
      unfolding f v[symmetric] using P by (rule val_round_double_upper)
  }
qed

lemma logistic_upper:
  assumes pos: "0 < mant (logistic s)"
  shows "val (logistic s) \<le> 9751 / 10000"
proof -
  define a where "a = fmul chaos_r s"
  define b where "b = fsub one s"
  define x where "x = val s"
  define K1 :: real where "K1 = 390011 / 100000"
  define K2 :: real where "K2 = 1000001 / 1000000"
  define T :: real where "T = 1 / 1000000"
  have l: "logistic s = fmul a b" by (simp add: logistic_def a_def b_def)
  have u: "1 + unit_roundoff \<le> K2" "0 \<le> 1 + unit_roundoff"
    using unit_roundoff_small unit_roundoff_pos by (simp_all add: K2_def)
  have t: "tiny \<le> T" using tiny_small by (simp add: T_def)
  have ab: "0 < mant a * mant b"
  proof (rule ccontr)
    assume "\<not> 0 < mant a * mant b"
    then have "mant a * mant b \<le> 0" by simp
    then have "mant (logistic s) \<le> 0" unfolding l fmul_def by (rule mant_round_double_nonpos)
    with pos show False by simp
  qed
  have rs: "0 < mant a \<Longrightarrow> 0 < mant s"
  proof -
    assume "0 < mant a"
    then have "0 < mant chaos_r * mant s" unfolding a_def fmul_def by (rule mant_round_double_pos)
    then show "0 < mant s" using val_chaos_r(1) by (simp add: zero_less_mult_iff)
  qed
  have neg: "\<not> mant a < 0"
  proof
    assume an: "mant a < 0"
    then have "mant chaos_r * mant s < 0" unfolding a_def fmul_def by (rule mant_round_double_neg)
    then have "mant s < 0" using val_chaos_r(1) by (simp add: mult_less_0_iff)
    then have "real_of_int (mant s) * 2 powi expo s < 0"
      by (intro mult_neg_pos) simp_all
    then have "val s \<le> 1" by (simp add: val_def)
    then have "0 \<le> mant b" unfolding b_def by (rule val_fsub_one(2))
    with an have "mant a * mant b \<le> 0" by (simp add: mult_nonpos_nonneg)
    with ab show False by simp
  qed
  from ab neg have ma: "0 < mant a" and mb: "0 < mant b"
    by (simp_all add: zero_less_mult_iff)
  have x0: "0 < x"
  proof -
    have "0 < real_of_int (mant s) * 2 powi expo s"
      using rs[OF ma] by (intro mult_pos_pos) simp_all
    then show ?thesis by (simp add: x_def val_def)
  qed
  have x1: "x < 1" unfolding x_def using mb unfolding b_def by (rule val_fsub_one(1))
  have A0: "0 \<le> val a"
  proof -
    have "0 \<le> real_of_int (mant a) * 2 powi expo a"
      using ma by (intro mult_nonneg_nonneg) simp_all
    then show ?thesis by (simp add: val_def)
  qed
  have B0: "0 \<le> val b"
  proof -
    have "0 \<le> real_of_int (mant b) * 2 powi expo b"
      using mb by (intro mult_nonneg_nonneg) simp_all
    then show ?thesis by (simp add: val_def)
  qed
  have "0 \<le> mant chaos_r * mant s" using rs[OF ma] val_chaos_r(1) by simp
  then have "val a \<le> val chaos_r * val s * (1 + unit_roundoff) + tiny"
    unfolding a_def by (rule val_fmul_upper)
  moreover have "val chaos_r * val s * (1 + unit_roundoff) \<le> K1 * x"
  proof -
    have "val chaos_r * (1 + unit_roundoff) \<le> (39001 / 10000) * K2"
      using val_chaos_r(2,3) u by (intro mult_mono) simp_all
    also have "\<dots> \<le> K1" by (simp add: K1_def K2_def)
    finally have "val chaos_r * (1 + unit_roundoff) * x \<le> K1 * x"
      using x0 by (intro mult_right_mono) simp_all
    then show ?thesis by (simp add: x_def mult.assoc mult.commute mult.left_commute)
  qed
  ultimately have A: "val a \<le> K1 * x + T" using t by linarith
  have "val b \<le> (1 - x) * (1 + unit_roundoff) + tiny"
    unfolding b_def x_def using x1 by (intro val_fsub_one(3)) (simp add: x_def)
  moreover have "(1 - x) * (1 + unit_roundoff) \<le> (1 - x) * K2"
    using x1 u by (intro mult_left_mono) simp_all
  ultimately have B: "val b \<le> K2 * (1 - x) + T" using t by (simp add: mult.commute)
  have "val a * val b \<le> (K1 * x + T) * (K2 * (1 - x) + T)"
    using A B A0 B0 by (intro mult_mono) simp_all
  also have "\<dots> = K1 * K2 * (x * (1 - x)) + T * K1 * x + T * K2 * (1 - x) + T * T"
    by (simp add: algebra_simps)
  also have "\<dots> \<le> K1 * K2 * (1 / 4) + T * K1 * 1 + T * K2 * 1 + T * T"
  proof -
    have "0 \<le> (x - 1 / 2) * (x - 1 / 2)" by simp
    then have "x * (1 - x) \<le> 1 / 4" by (simp add: algebra_simps)
    then have "K1 * K2 * (x * (1 - x)) \<le> K1 * K2 * (1 / 4)"
      by (intro mult_left_mono) (simp_all add: K1_def K2_def)
    moreover have "T * K1 * x \<le> T * K1 * 1"
      using x1 by (intro mult_left_mono) (simp_all add: K1_def T_def)
    moreover have "T * K2 * (1 - x) \<le> T * K2 * 1"
      using x0 by (intro mult_left_mono) (simp_all add: K2_def T_def)
    ultimately show ?thesis by linarith
  qed
  also have "\<dots> \<le> 97504 / 100000" by (simp add: K1_def K2_def T_def)
  finally have AB: "val a * val b \<le> 97504 / 100000" .
  have "0 \<le> mant a * mant b" using ab by simp
  then have "val (logistic s) \<le> val a * val b * (1 + unit_roundoff) + tiny"
    unfolding l by (rule val_fmul_upper)
  moreover have "val a * val b * (1 + unit_roundoff) \<le> (97504 / 100000) * K2"
    using AB u A0 B0 by (intro mult_mono) simp_all
  moreover have "(97504 / 100000) * K2 + T \<le> 9751 / 10000" by (simp add: K2_def T_def)
  ultimately show ?thesis using t by linarith
qed

lemma next_state_upper: "val (next_state s) \<le> 9751 / 10000"
proof (cases "le_zero (logistic s) \<or> ge_one (logistic s)")
  case True
  then have "next_state s = half" by (simp add: next_state_def Let_def)
  then show ?thesis by (simp add: half_def val_def)
next
  case False
  then have "next_state s = logistic s" and "0 < mant (logistic s)"
    by (simp_all add: next_state_def Let_def le_zero_def)
  then show ?thesis using logistic_upper by simp
qed

lemma scaled_below_last:
  assumes m: "41 \<le> m"
  shows "scaled (next_state s) m < int m - 1"
proof -
  define t where "t = next_state s"
  define r where "r = fmul t (of_count m)"
  define K2 :: real where "K2 = 1000001 / 1000000"
  have vm: "val (of_count m) = real m" by (simp add: of_count_def val_def)
  have it: "in_unit t" unfolding t_def by (rule in_unit_next_state)
  have prod0: "0 \<le> mant t * mant (of_count m)"
    using it by (simp add: in_unit_def of_count_def)
  have u: "1 + unit_roundoff \<le> K2" "0 \<le> 1 + unit_roundoff"
    using unit_roundoff_small unit_roundoff_pos by (simp_all add: K2_def)
  have "val r \<le> val t * real m * (1 + unit_roundoff) + tiny"
    unfolding r_def using val_fmul_upper[OF prod0] by (simp only: vm)
  moreover have "val t * real m * (1 + unit_roundoff) \<le> (9751 / 10000 * real m) * K2"
  proof (rule mult_mono)
    show "val t * real m \<le> 9751 / 10000 * real m"
      unfolding t_def using next_state_upper by (intro mult_right_mono) simp_all
    show "1 + unit_roundoff \<le> K2" by (rule u(1))
    show "0 \<le> 9751 / 10000 * real m" by simp
    show "0 \<le> 1 + unit_roundoff" by (rule u(2))
  qed
  moreover have "(41::real) \<le> real m" using m by simp
  moreover have "(9751 / 10000 * real m) * K2 = (9751009751 / 10000000000) * real m"
    by (simp add: K2_def)
  ultimately have "val r < real m - 1" using tiny_small by linarith
  then have "val r < real_of_int (int m - 1)" by simp
  then have "floor_double r < int m - 1" by (simp only: floor_double_val floor_less_iff)
  then show ?thesis by (simp add: scaled_def r_def t_def)
qed

lemma draw_below_last:
  assumes "41 \<le> width p"
  shows "xpos (fst (draw p)) < int (width p) - 1"
  using scaled_below_last[OF assms, of "state p"]
  by (simp add: draw_def nextInt_eq)

lemma draw_unique_below_last_aux:
  assumes "draw_unique used p = Some y"
  shows "41 \<le> width p \<longrightarrow> xpos (fst y) < int (width p) - 1"
proof (rule draw_unique.raw_induct[where P = "\<lambda>used p y. 41 \<le> width p \<longrightarrow> xpos (fst y) < int (width p) - 1", OF _ assms])
  fix f used p y
  assume IH: "\<And>used p y. f used p = Some y \<Longrightarrow> 41 \<le> width p \<longrightarrow> xpos (fst y) < int (width p) - 1"
    and step: "(case draw p of (l, p') \<Rightarrow> if l \<in> used then f used p' else Some (l, p')) = Some y"
  obtain l1 p1 where d: "draw p = (l1, p1)" by (cases "draw p")
  note fl = draw_fields[OF d]
  show "41 \<le> width p \<longrightarrow> xpos (fst y) < int (width p) - 1"
  proof (cases "l1 \<in> used")
    case True
    then have "f used p1 = Some y" using step d by simp
    from IH[OF this] fl show ?thesis by simp
  next
    case False
    then have "y = (l1, p1)" using step d by simp
    then show ?thesis using draw_below_last[of p] d by simp
  qed
qed

lemma draw_unique_below_last:
  assumes "draw_unique used p = Some (l, p')" "41 \<le> width p"
  shows "xpos l < int (width p) - 1"
  using draw_unique_below_last_aux[OF assms(1)] assms(2) by simp

lemma sequence_loop_below_last:
  assumes "sequence_loop n sq used p = Some (sq', p')" "41 \<le> width p"
    "\<forall>l\<in>set sq. xpos l < int (width p) - 1"
  shows "\<forall>l\<in>set sq'. xpos l < int (width p) - 1"
  using assms
proof (induction n arbitrary: sq used p)
  case 0
  then show ?case by simp
next
  case (Suc n)
  show ?case
  proof (cases "draw_unique used p")
    case None
    with Suc.prems show ?thesis by simp
  next
    case (Some a)
    obtain l p1 where a: "a = (l, p1)" by (cases a)
    have du: "draw_unique used p = Some (l, p1)" using Some a by simp
    have rest: "sequence_loop n (sq @ [l]) (insert l used) p1 = Some (sq', p')"
      using Suc.prems(1) du by simp
    have w: "width p1 = width p" using draw_unique_Some[OF du] by simp
    have l: "xpos l < int (width p) - 1" using du Suc.prems(2) by (rule draw_unique_below_last)
    have "\<forall>l\<in>set sq'. xpos l < int (width p1) - 1"
    proof (rule Suc.IH[OF rest])
      show "41 \<le> width p1" using w Suc.prems(2) by simp
      show "\<forall>l\<in>set (sq @ [l]). xpos l < int (width p1) - 1"
        using w l Suc.prems(3) by simp
    qed
    then show ?thesis using w by simp
  qed
qed

lemma generatePixelSequence_below_last:
  assumes "generatePixelSequence count p = Some (sq, p')" "41 \<le> width p"
  shows "\<forall>l\<in>set sq. xpos l < int (width p) - 1"
  using sequence_loop_below_last[OF assms(1)[unfolded generatePixelSequence_def] assms(2)] by simp

lemma generatePixelSequence_last_column:
  assumes "(width p - 1) * height p * 3 < count" "41 \<le> width p" "0 < height p"
  shows "generatePixelSequence count p = None"
proof (rule ccontr)
  assume "generatePixelSequence count p \<noteq> None"
  then obtain sq p' where s: "generatePixelSequence count p = Some (sq, p')" by auto
  note r = generatePixelSequence_Some[OF s]
  note b = generatePixelSequence_below_last[OF s assms(2)]
  have w: "0 < width p" using assms(2) by simp
  have i: "int (width p - 1) = int (width p) - 1" using assms(2) by simp
  have "set sq \<subseteq> {l. wf_loc (width p - 1) (height p) l}"
  proof
    fix l assume l: "l \<in> set sq"
    then have "wf_loc (width p) (height p) l" using r(5)[OF w assms(3)] by simp
    moreover have "xpos l < int (width p) - 1" using b l by simp
    ultimately show "l \<in> {l. wf_loc (width p - 1) (height p) l}"
      by (simp add: wf_loc_def i)
  qed
  then have "card (set sq) \<le> card {l. wf_loc (width p - 1) (height p) l}"
    using wf_loc_card by (intro card_mono) simp_all
  also have "\<dots> \<le> (width p - 1) * height p * 3" using wf_loc_card by simp
  finally show False using r(1,2) assms(1) by (simp add: distinct_card)
qed

section \<open>The claims\<close>

text \<open>
  C3. The claim: a payload of more bits than \<open>width * height * 3\<close> makes \<open>encode\<close> fail
  with a capacity error, and \<open>"Hi"\<close> with key \<open>"abc"\<close> in a 2x2 image fails so. The code
  has no such check: on that input (64 bits for 12 places) \<open>encode\<close> asks the generator for
  64 distinct positions and never returns.
\<close>

theorem encode_Hi_in_2x2_never_returns:
  "encode \<lparr>data = concat (replicate 4 [100, 100, 100, 255]), imgWidth = 2, imgHeight = 2\<rparr>
     [0x48, 0x69] [0x61, 0x62, 0x63] = None"
proof -
  have "length (fullBinary [0x48, 0x69 :: 16 word]) = 64"
    by (subst length_fullBinary) simp_all
  moreover have "generatePixelSequence 64 (new_ChaosPRNG [0x61, 0x62, 0x63] 2 2) = None"
    by (rule generatePixelSequence_saturated) (simp_all add: new_ChaosPRNG_def)
  ultimately show ?thesis by (simp add: encode_def Let_def)
qed

text \<open>
  C4. The claim: \<open>generatePixelSequence\<close> ends for every count, with an error when the count
  exceeds \<open>width * height * 3\<close>. The code has no such test: asked for 13 positions of a 2x2
  image, which has 12, the rejection loop runs forever, whatever the key.
\<close>

theorem generatePixelSequence_13_of_2x2_never_returns:
  "generatePixelSequence 13 (new_ChaosPRNG k 2 2) = None"
  by (rule generatePixelSequence_saturated) (simp_all add: new_ChaosPRNG_def)

text \<open>
  C6. The accumulator of \<open>generateSeed\<close> lies in \<open>[0, 1000)\<close>, the seed is a function of it
  alone, so there are at most 1000 seeds, and two keys with the same accumulator have the
  same seed and draw the same positions for the same dimensions.
\<close>

theorem seed_is_a_function_of_the_accumulator:
  "0 \<le> key_value 0 k \<and> key_value 0 k < 1000
   \<and> generateSeed k = seed_of (key_value 0 k)
   \<and> card (range generateSeed) \<le> 1000
   \<and> (key_value 0 k1 = key_value 0 k2 \<longrightarrow>
        generateSeed k1 = generateSeed k2
        \<and> (\<forall>n w h. map_option fst (generatePixelSequence n (new_ChaosPRNG k1 w h))
                   = map_option fst (generatePixelSequence n (new_ChaosPRNG k2 w h))))"
proof -
  have r: "0 \<le> key_value 0 k \<and> key_value 0 k < 1000" for k
    by (rule key_value_range) simp_all
  have "range generateSeed \<subseteq> seed_of ` {0..<1000}"
    using r by (auto simp: generateSeed_seed_of)
  then have "card (range generateSeed) \<le> card (seed_of ` {0..<1000::int})"
    by (intro card_mono) simp_all
  also have "\<dots> \<le> card {0..<1000::int}" by (rule card_image_le) simp
  finally have c: "card (range generateSeed) \<le> 1000" by simp
  have s: "map_option fst (generatePixelSequence n (new_ChaosPRNG k1 w h))
             = map_option fst (generatePixelSequence n (new_ChaosPRNG k2 w h))"
    if "key_value 0 k1 = key_value 0 k2" for n w h
    by (simp add: generatePixelSequence_same_value[OF that] option.map_comp comp_def)
  show ?thesis using r c s by (simp add: generateSeed_seed_of)
qed

theorem seed_is_a_function_of_the_accumulator_witness:
  "key_value 0 [0x61] = key_value 0 [0x3B, 0x5E]
   \<and> generateSeed [0x61] = generateSeed [0x3B, 0x5E]
   \<and> (\<forall>n w h. map_option fst (generatePixelSequence n (new_ChaosPRNG [0x61] w h))
              = map_option fst (generatePixelSequence n (new_ChaosPRNG [0x3B, 0x5E] w h)))"
proof -
  have e: "key_value 0 [0x61] = key_value 0 [0x3B, 0x5E]" by simp
  show ?thesis
    using e seed_is_a_function_of_the_accumulator[of "[0x61]" "[0x61]" "[0x3B, 0x5E]"]
    by blast
qed

text \<open>
  C5, as amended. The claim that a second key never returns the message fails: the
  generator sees a key only through its accumulator, so two keys with the same
  accumulator encode and decode every image alike. Decoding with such a second key
  returns exactly what decoding with the first returns.
\<close>

theorem keys_with_one_accumulator_decode_alike:
  "key_value 0 k1 = key_value 0 k2 \<Longrightarrow>
     encode img m k2 = encode img m k1 \<and> decode img k2 = decode img k1"
  by (intro conjI encode_same_value decode_same_value)

text \<open>
  C7, as amended. Once the 32 header positions are drawn, \<open>decode\<close> is decided by the
  length \<open>n\<close> that the header bits give. It returns \<open>null\<close> exactly when \<open>n\<close> is 0 or
  more than \<open>width * height * 3\<close>. It has no test that \<open>n\<close> is a multiple of 16: for \<open>n\<close>
  in range it returns, when the \<open>n\<close> message positions are drawn, the text that
  \<open>binaryToString\<close> makes of the \<open>n\<close> bits read there, and does not return when they are
  not drawn. That text has \<open>n\<close> divided by 16, rounded up, characters, and when \<open>n\<close> is
  not a multiple of 16 its last character is the number that the shorter last group of
  bits spells.
\<close>

theorem decode_null_iff_length_out_of_range:
  assumes "generatePixelSequence 32 (new_ChaosPRNG k (imgWidth img) (imgHeight img)) = Some (ls, p1)"
  shows "(decode img k = Some Null)
           = (parseInt2 (map (lsb_at (data img) (imgWidth img)) ls) = 0
              \<or> imgWidth img * imgHeight img * 3
                  < parseInt2 (map (lsb_at (data img) (imgWidth img)) ls))
         \<and> (\<forall>t. decode img k = Some (Text t) \<longrightarrow>
               length t = (parseInt2 (map (lsb_at (data img) (imgWidth img)) ls) + 15) div 16)
         \<and> (0 < parseInt2 (map (lsb_at (data img) (imgWidth img)) ls)
              \<and> parseInt2 (map (lsb_at (data img) (imgWidth img)) ls)
                  \<le> imgWidth img * imgHeight img * 3 \<longrightarrow>
             decode img k
               = map_option (\<lambda>r. Text (binaryToString
                                (map (lsb_at (data img) (imgWidth img)) (fst r))))
                   (generatePixelSequence
                      (parseInt2 (map (lsb_at (data img) (imgWidth img)) ls)) p1))
         \<and> (\<forall>ms p2.
               0 < parseInt2 (map (lsb_at (data img) (imgWidth img)) ls)
               \<and> parseInt2 (map (lsb_at (data img) (imgWidth img)) ls)
                   \<le> imgWidth img * imgHeight img * 3
               \<and> generatePixelSequence
                     (parseInt2 (map (lsb_at (data img) (imgWidth img)) ls)) p1 = Some (ms, p2)
               \<longrightarrow>
               decode img k
                 = Some (Text (binaryToString (map (lsb_at (data img) (imgWidth img)) ms)))
               \<and> length (binaryToString (map (lsb_at (data img) (imgWidth img)) ms))
                   = (parseInt2 (map (lsb_at (data img) (imgWidth img)) ls) + 15) div 16
               \<and> (parseInt2 (map (lsb_at (data img) (imgWidth img)) ls) mod 16 \<noteq> 0 \<longrightarrow>
                    last (binaryToString (map (lsb_at (data img) (imgWidth img)) ms))
                      = word_of_nat (parseInt2
                          (drop (16 * (parseInt2 (map (lsb_at (data img) (imgWidth img)) ls) div 16))
                             (map (lsb_at (data img) (imgWidth img)) ms)))))"
proof -
  define n where "n = parseInt2 (map (lsb_at (data img) (imgWidth img)) ls)"
  define rd where "rd = lsb_at (data img) (imgWidth img)"
  have out: "decode img k = Some Null" if "n = 0 \<or> imgWidth img * imgHeight img * 3 < n"
    using that by (auto simp: decode_def Let_def assms n_def)
  have inr: "decode img k
      = map_option (\<lambda>r. Text (binaryToString (map rd (fst r)))) (generatePixelSequence n p1)"
    if "0 < n" "n \<le> imgWidth img * imgHeight img * 3"
    using that
    by (simp add: decode_def Let_def assms n_def[symmetric] rd_def split: option.splits prod.splits)
  have 1: "(decode img k = Some Null) = (n = 0 \<or> imgWidth img * imgHeight img * 3 < n)"
  proof (cases "n = 0 \<or> imgWidth img * imgHeight img * 3 < n")
    case True
    then show ?thesis using out by simp
  next
    case False
    then have "decode img k \<noteq> Some Null" using inr by (auto simp: map_option_case split: option.splits)
    then show ?thesis using False by simp
  qed
  have drawn: "decode img k = Some (Text (binaryToString (map rd ms)))
      \<and> length (binaryToString (map rd ms)) = (n + 15) div 16
      \<and> (n mod 16 \<noteq> 0 \<longrightarrow>
           last (binaryToString (map rd ms))
             = word_of_nat (parseInt2 (drop (16 * (n div 16)) (map rd ms))))"
    if "0 < n" "n \<le> imgWidth img * imgHeight img * 3" "generatePixelSequence n p1 = Some (ms, p2)"
    for ms p2
  proof -
    have l: "length (map rd ms) = n"
      using generatePixelSequence_Some(1)[OF that(3)] by simp
    have "n mod 16 \<noteq> 0 \<longrightarrow> last (binaryToString (map rd ms))
             = word_of_nat (parseInt2 (drop (16 * (n div 16)) (map rd ms)))"
      using last_binaryToString[of "map rd ms"] by (simp only: l) blast
    then show ?thesis using inr[OF that(1,2)] that(3) l by (simp add: length_binaryToString)
  qed
  have 2: "\<forall>t. decode img k = Some (Text t) \<longrightarrow> length t = (n + 15) div 16"
  proof (intro allI impI)
    fix t assume t: "decode img k = Some (Text t)"
    then have r: "0 < n" "n \<le> imgWidth img * imgHeight img * 3" using out by fastforce+
    then obtain ms p2 where g: "generatePixelSequence n p1 = Some (ms, p2)"
      using inr[OF r] t by (cases "generatePixelSequence n p1") auto
    from drawn[OF r g] t show "length t = (n + 15) div 16" by simp
  qed
  show ?thesis
    unfolding n_def[symmetric] unfolding rd_def[symmetric] using 1 2 inr drawn by blast
qed

text \<open>
  C8, as amended. The check for an empty message or key is in \<open>handleEncode\<close>, the caller:
  with a message or a key that is empty, or white space only, it reports an error and
  does not call \<open>encode\<close>, so nothing is computed and no buffer is made. \<open>encode\<close> itself
  has no such check.
\<close>

theorem handleEncode_rejects_blank_input:
  "trim (message app) = [] \<or> trim (secretKey app) = [] \<Longrightarrow>
     \<exists>e. handleEncode app = Some (Inl e)"
  by (auto simp: handleEncode_def split: option.splits)

theorem handleEncode_rejects_blank_input_witness:
  "trim (message \<lparr>image = Some \<lparr>data = [7, 7, 7, 255], imgWidth = 1, imgHeight = 1\<rparr>,
                   message = [], secretKey = [0x61]\<rparr>) = []
   \<and> handleEncode \<lparr>image = Some \<lparr>data = [7, 7, 7, 255], imgWidth = 1, imgHeight = 1\<rparr>,
                   message = [], secretKey = [0x61]\<rparr>
       = Some (Inl ''Please enter a message to hide'')"
proof -
  have t: "trim (message \<lparr>image = Some \<lparr>data = [7, 7, 7, 255], imgWidth = 1, imgHeight = 1\<rparr>,
                   message = [], secretKey = [0x61]\<rparr>) = []"
    by (simp add: trim_def)
  from handleEncode_rejects_blank_input[OF disjI1, OF t] t show ?thesis
    by (auto simp: handleEncode_def)
qed

text \<open>
  C9. \<open>encode\<close> writes into a copy: the model's input is a value and the result is a new
  record. The returned buffer has the size of the input; every byte at an offset that
  no drawn position selects is the input byte, and so is every alpha byte; every byte
  keeps its seven high bits; and the byte selected by the \<open>j\<close>-th position is the input
  byte with its lowest bit replaced by the \<open>j\<close>-th payload bit.
\<close>

theorem encode_changes_only_selected_low_bits:
  assumes "encode img m k = Some out"
    and "0 < imgWidth img" and "0 < imgHeight img"
    and "length (data img) = imgWidth img * imgHeight img * 4"
  shows "\<exists>sq p'.
      generatePixelSequence (length (fullBinary m))
        (new_ChaosPRNG k (imgWidth img) (imgHeight img)) = Some (sq, p')
      \<and> imgWidth out = imgWidth img \<and> imgHeight out = imgHeight img
      \<and> length (data out) = length (data img)
      \<and> (\<forall>i<length (data img).
            int i \<notin> byte_offset (imgWidth img) ` set sq \<longrightarrow> data out ! i = data img ! i)
      \<and> (\<forall>i<length (data img). i mod 4 = 3 \<longrightarrow> data out ! i = data img ! i)
      \<and> (\<forall>i<length (data img). data out ! i AND 0xFE = data img ! i AND 0xFE)
      \<and> (\<forall>j<length sq.
            data out ! nat (byte_offset (imgWidth img) (sq ! j))
              = (data img ! nat (byte_offset (imgWidth img) (sq ! j)) AND 0xFE)
                OR (if fullBinary m ! j then 1 else 0))"
proof -
  define w where "w = imgWidth img"
  define h where "h = imgHeight img"
  from assms(1) obtain sq p' where
    g: "generatePixelSequence (length (fullBinary m)) (new_ChaosPRNG k w h) = Some (sq, p')"
    and out: "out = img\<lparr>data := embed (data img) w sq (fullBinary m)\<rparr>"
    unfolding w_def h_def by (rule encode_Some)
  have len: "length sq = length (fullBinary m)" using g by (rule generatePixelSequence_Some(1))
  have dist: "distinct sq" using g by (rule generatePixelSequence_Some(2))
  have wf: "\<forall>l\<in>set sq. wf_loc w h l"
    using generatePixelSequence_Some(5)[OF g] assms(2,3) by (simp add: w_def h_def new_ChaosPRNG_def)
  have ch: "\<forall>l\<in>set sq. 0 \<le> channel l \<and> channel l < 3"
    using g by (rule generatePixelSequence_channel)
  have rng: "\<forall>l\<in>set sq. 0 \<le> byte_offset w l \<and> byte_offset w l < int (length (data img))"
    using wf byte_offset_range[of w h] assms(4) by (auto simp: w_def h_def)
  have 1: "\<forall>i<length (data img). int i \<notin> byte_offset w ` set sq \<longrightarrow> data out ! i = data img ! i"
    by (simp add: out embed_unselected)
  have 2: "\<forall>i<length (data img). i mod 4 = 3 \<longrightarrow> data out ! i = data img ! i"
    using ch by (simp add: out embed_alpha)
  have 3: "\<forall>i<length (data img). data out ! i AND 0xFE = data img ! i AND 0xFE"
    by (simp add: out embed_high_bits)
  have 4: "\<forall>j<length sq. data out ! nat (byte_offset w (sq ! j))
              = (data img ! nat (byte_offset w (sq ! j)) AND 0xFE)
                OR (if fullBinary m ! j then 1 else 0)"
  proof (intro allI impI)
    fix j assume j: "j < length sq"
    have "embed (data img) w sq (fullBinary m) ! nat (byte_offset w (sq ! j))
        = (data img ! nat (byte_offset w (sq ! j)) AND 0xFE) OR (if fullBinary m ! j then 1 else 0)"
      using byte_offset_distinct[OF dist wf] rng len j by (intro embed_selected) simp_all
    then show "data out ! nat (byte_offset w (sq ! j))
        = (data img ! nat (byte_offset w (sq ! j)) AND 0xFE) OR (if fullBinary m ! j then 1 else 0)"
      by (simp add: out)
  qed
  have 0: "imgWidth out = imgWidth img \<and> imgHeight out = imgHeight img
      \<and> length (data out) = length (data img)" by (simp add: out)
  show ?thesis
    using g 0 1 2 3 4 unfolding w_def h_def by blast
qed

lemma white_Hi:
  "encode white [0x48, 0x69] [0x61] = Some encoded_Hi"
  "decode encoded_Hi [0x61] = Some (Text [0x48, 0x0D])"
  "parseInt2 (map (lsb_at (data encoded_Hi) 228) header_a) = 32"
proof -
  have len: "length (fullBinary [0x48, 0x69 :: 16 word]) = 64"
    by (subst length_fullBinary) simp_all
  note g = sequence_a_64[folded len]
  have n': "parseInt2 (map (lookup_bit (zip (header_a @ body_a_16 @ body_a_enc)
             (fullBinary [0x48, 0x69])) True) header_a) = 32"
    by code_simp
  have n: "parseInt2 (map (lookup_bit (zip (header_a @ body_a_16 @ body_a_enc)
             (fullBinary [0x48, 0x69])) ((255 :: 8 word) AND 1 = 1)) header_a) = 32"
    using n' by simp
  have t: "binaryToString (map (lookup_bit (zip (header_a @ body_a_16 @ body_a_enc)
             (fullBinary [0x48, 0x69])) True) body_a_dec) = [0x48, 0x0D]"
    by code_simp
  note r = decode_encoded[OF g _ _ sequence_a_32 n _ _ sequence_a_32_32]
  show "encode white [0x48, 0x69] [0x61] = Some encoded_Hi"
    using r(1) by (simp add: white_def encoded_Hi_def)
  show "decode encoded_Hi [0x61] = Some (Text [0x48, 0x0D])"
    using r(2) by (simp add: encoded_Hi_def t)
  show "parseInt2 (map (lsb_at (data encoded_Hi) 228) header_a) = 32"
    using r(3) by (simp add: encoded_Hi_def)
qed

lemma white_A:
  "encode white [0x41] [0x61] = Some encoded_A"
  "decode encoded_A [0x61] = Some (Text [0x41])"
proof -
  have len: "length (fullBinary [0x41 :: 16 word]) = 48"
    by (subst length_fullBinary) simp_all
  note g = sequence_a_48[folded len]
  have n': "parseInt2 (map (lookup_bit (zip (header_a @ body_a_16) (fullBinary [0x41])) True)
              header_a) = 16"
    by code_simp
  have n: "parseInt2 (map (lookup_bit (zip (header_a @ body_a_16) (fullBinary [0x41]))
              ((255 :: 8 word) AND 1 = 1)) header_a) = 16"
    using n' by simp
  have t: "binaryToString (map (lookup_bit (zip (header_a @ body_a_16) (fullBinary [0x41])) True)
              body_a_16) = [0x41]"
    by code_simp
  note r = decode_encoded[OF g _ _ sequence_a_32 n _ _ sequence_a_32_16]
  show "encode white [0x41] [0x61] = Some encoded_A"
    using r(1) by (simp add: white_def encoded_A_def)
  show "decode encoded_A [0x61] = Some (Text [0x41])"
    using r(2) by (simp add: encoded_A_def t)
qed

lemma white_empty:
  "encode white [] [0x61] = Some encoded_empty"
  "data encoded_empty ! 830 = 254"
proof -
  have len: "length (fullBinary []) = 32"
    by (subst length_fullBinary) simp_all
  note g = sequence_a_32[folded len]
  show "encode white [] [0x61] = Some encoded_empty"
    unfolding white_def encoded_empty_def by (rule encode_eq[OF g])
  have wf: "\<forall>l\<in>set header_a. wf_loc 228 1 l"
    using generatePixelSequence_Some(5)[OF sequence_a_32] by (simp add: new_ChaosPRNG_def)
  have d: "distinct header_a" using sequence_a_32 by (rule generatePixelSequence_Some(2))
  have l: "length header_a = 32" using sequence_a_32 by (rule generatePixelSequence_Some(1))
  have o: "byte_offset 228 (header_a ! 31) = 830" by code_simp
  have b: "fullBinary [] ! 31 = False" by code_simp
  have "embed (replicate 912 255) 228 header_a (fullBinary [])
            ! nat (byte_offset 228 (header_a ! 31))
          = (replicate 912 255 ! nat (byte_offset 228 (header_a ! 31)) AND 0xFE)
            OR (if fullBinary [] ! 31 then 1 else 0)"
  proof (rule embed_selected)
    show "distinct (map (byte_offset 228) header_a)" using d wf by (rule byte_offset_distinct)
    show "\<forall>l\<in>set header_a.
            0 \<le> byte_offset 228 l \<and> byte_offset 228 l < int (length (replicate 912 (255 :: 8 word)))"
      using wf byte_offset_range[of 228 1] by auto
  qed (simp_all add: l len)
  then show "data encoded_empty ! 830 = 254"
    by (simp add: encoded_empty_def o b)
qed

lemma dark_header:
  "parseInt2 (map (lsb_at (data dark) 228) header_a) = 1"
  "binaryToString (map (lsb_at (data dark) 228) [Location 115 0 0]) = [0]"
  by code_simp+

lemma dark_decode: "decode dark [0x61] = Some (Text [0])"
proof -
  have d: "dark = \<lparr>data = data dark, imgWidth = 228, imgHeight = 1\<rparr>"
    by (simp add: dark_def)
  have "decode \<lparr>data = data dark, imgWidth = 228, imgHeight = 1\<rparr> [0x61]
      = Some (Text (binaryToString (map (lsb_at (data dark) 228) [Location 115 0 0])))"
    by (rule decode_eq[OF sequence_a_32 dark_header(1) _ _ sequence_a_32_1]) simp_all
  then show ?thesis by (simp only: d[symmetric] dark_header(2))
qed

text \<open>
  C1. The claim: decoding what \<open>encode\<close> made, with the same key, returns the message.
  \<open>encode\<close> draws all its positions in one call, so the positions of the message bits
  are distinct from the 32 of the header; \<open>decode\<close> draws the header and the message in
  two calls, the second with an empty set of used positions, so it takes a position
  again that \<open>encode\<close> had to skip. On a white image of 228 by 1 pixels, with key \<open>"a"\<close>,
  the message \<open>"Hi"\<close> comes back as \<open>"H"\<close> followed by a carriage return.
\<close>

theorem round_trip_of_Hi_returns_another_text:
  "\<exists>out. encode white [0x48, 0x69] [0x61] = Some out
         \<and> decode out [0x61] = Some (Text [0x48, 0x0D])"
  using white_Hi(1,2) by blast

text \<open>
  C2. The claim: in \<open>decode\<close> the positions of the message are distinct from the 32 of
  the header. In the code the set of used positions is local to one call of
  \<open>generatePixelSequence\<close>: for the image of C1, whose header says 32 bits, the second
  call returns the position (22, 0, 2), which the first call had returned.
\<close>

theorem decode_draws_a_header_position_again:
  "\<exists>out ls p1 ms p2.
      encode white [0x48, 0x69] [0x61] = Some out
      \<and> generatePixelSequence 32 (new_ChaosPRNG [0x61] (imgWidth out) (imgHeight out)) = Some (ls, p1)
      \<and> parseInt2 (map (lsb_at (data out) (imgWidth out)) ls) = 32
      \<and> generatePixelSequence 32 p1 = Some (ms, p2)
      \<and> Location 22 0 2 \<in> set ls \<and> Location 22 0 2 \<in> set ms"
proof -
  have w: "imgWidth encoded_Hi = 228" "imgHeight encoded_Hi = 1"
    by (simp_all add: encoded_Hi_def)
  have "Location 22 0 2 \<in> set header_a" by (simp add: header_a_def)
  moreover have "Location 22 0 2 \<in> set body_a_dec" by (simp add: body_a_dec_def)
  ultimately show ?thesis
    using white_Hi(1,3) sequence_a_32 sequence_a_32_32 unfolding w[symmetric] by blast
qed

text \<open>
  C5, the claim as stated: a second key never returns the message. The keys \<open>"a"\<close> and
  \<open>";^"\<close> differ and have the accumulator 649: what the first hides in the white image,
  the second reads.
\<close>

theorem another_key_returns_the_message:
  "[0x61] \<noteq> [0x3B, 0x5E :: 16 word]
   \<and> (\<exists>out. encode white [0x41] [0x61] = Some out
             \<and> decode out [0x3B, 0x5E] = Some (Text [0x41]))"
proof -
  have "key_value 0 [0x61] = key_value 0 [0x3B, 0x5E]" by simp
  then have "decode encoded_A [0x3B, 0x5E] = decode encoded_A [0x61]"
    by (rule decode_same_value)
  then show ?thesis using white_A by auto
qed

text \<open>
  The amended C5 at the keys \<open>"a"\<close> and \<open>";^"\<close>: the second encodes the white image as the
  first does, and reads the message from the image that the first made.
\<close>

theorem keys_with_one_accumulator_decode_alike_witness:
  "key_value 0 [0x61] = key_value 0 [0x3B, 0x5E]
   \<and> encode white [0x41] [0x3B, 0x5E] = Some encoded_A
   \<and> decode encoded_A [0x3B, 0x5E] = Some (Text [0x41])"
proof -
  have e: "key_value 0 [0x61] = key_value 0 [0x3B, 0x5E]" by simp
  from keys_with_one_accumulator_decode_alike[OF e, of white "[0x41]"]
    keys_with_one_accumulator_decode_alike[OF e, of encoded_A "[0x41]"]
  show ?thesis using e white_A by simp
qed

text \<open>
  C7, the claim as stated: a length that is not a multiple of 16 makes \<open>decode\<close> fail. In
  the dark image (opaque black, one blue byte set to 1) the header bits give the length
  1, and \<open>decode\<close> returns a text of one character, made from the one bit it read.
\<close>

theorem decode_makes_a_text_of_one_bit:
  "\<exists>ls p1.
      generatePixelSequence 32 (new_ChaosPRNG [0x61] (imgWidth dark) (imgHeight dark)) = Some (ls, p1)
      \<and> parseInt2 (map (lsb_at (data dark) (imgWidth dark)) ls) = 1
      \<and> decode dark [0x61] = Some (Text [0])"
proof -
  have w: "imgWidth dark = 228" "imgHeight dark = 1" by (simp_all add: dark_def)
  show ?thesis
    using sequence_a_32 dark_header(1) dark_decode unfolding w[symmetric] by blast
qed

text \<open>
  The amended C7 at the dark image: the header gives the length 1, which is in range, the
  one message position is drawn, and the text is the one character that the one bit
  spells.
\<close>

theorem decode_null_iff_length_out_of_range_witness:
  "(decode dark [0x61] = Some Null)
     = (parseInt2 (map (lsb_at (data dark) (imgWidth dark)) header_a) = 0
        \<or> imgWidth dark * imgHeight dark * 3
            < parseInt2 (map (lsb_at (data dark) (imgWidth dark)) header_a))
   \<and> decode dark [0x61]
       = Some (Text (binaryToString (map (lsb_at (data dark) (imgWidth dark)) [Location 115 0 0])))
   \<and> length (binaryToString (map (lsb_at (data dark) (imgWidth dark)) [Location 115 0 0]))
       = (parseInt2 (map (lsb_at (data dark) (imgWidth dark)) header_a) + 15) div 16
   \<and> last (binaryToString (map (lsb_at (data dark) (imgWidth dark)) [Location 115 0 0]))
       = word_of_nat (parseInt2
           (drop (16 * (parseInt2 (map (lsb_at (data dark) (imgWidth dark)) header_a) div 16))
              (map (lsb_at (data dark) (imgWidth dark)) [Location 115 0 0])))"
proof -
  have w: "imgWidth dark = 228" "imgHeight dark = 1" by (simp_all add: dark_def)
  have hdr: "generatePixelSequence 32 (new_ChaosPRNG [0x61] (imgWidth dark) (imgHeight dark))
      = Some (header_a,
          (new_ChaosPRNG [0x61] 228 1)\<lparr>state := Double 7624491945421195 (- 53)\<rparr>)"
    by (simp only: w sequence_a_32)
  have n: "parseInt2 (map (lsb_at (data dark) (imgWidth dark)) header_a) = 1"
    using dark_header(1) by (simp only: w)
  have r: "0 < parseInt2 (map (lsb_at (data dark) (imgWidth dark)) header_a)"
    "parseInt2 (map (lsb_at (data dark) (imgWidth dark)) header_a)
       \<le> imgWidth dark * imgHeight dark * 3"
    "parseInt2 (map (lsb_at (data dark) (imgWidth dark)) header_a) mod 16 \<noteq> 0"
    by (simp_all add: w dark_header(1))
  have g: "generatePixelSequence (parseInt2 (map (lsb_at (data dark) (imgWidth dark)) header_a))
        ((new_ChaosPRNG [0x61] 228 1)\<lparr>state := Double 7624491945421195 (- 53)\<rparr>)
      = Some ([Location 115 0 0],
          (new_ChaosPRNG [0x61] 228 1)\<lparr>state := Double 6897939652721580 (- 56)\<rparr>)"
    by (simp only: n sequence_a_32_1)
  from decode_null_iff_length_out_of_range[OF hdr] r g show ?thesis by blast
qed

text \<open>
  C8, the claim as stated: \<open>encode\<close> with an empty message fails and leaves the buffer
  as it was. \<open>encode\<close> returns an image: it has written the 32 header bits of the length
  0, and the byte at offset 830, which was 255, is 254.
\<close>

theorem encode_accepts_an_empty_message:
  "\<exists>out. encode white [] [0x61] = Some out
         \<and> data out ! 830 = 254 \<and> data white ! 830 = 255"
proof -
  have "data white ! 830 = 255" by (simp add: white_def)
  then show ?thesis using white_empty by blast
qed

text \<open>
  C9 at the white image, the message \<open>"A"\<close> and the key \<open>"a"\<close>: \<open>encode\<close> returns, the alpha
  byte at offset 3 is the input's, and the selected byte at offset 830 keeps its high bits.
\<close>

theorem encode_changes_only_selected_low_bits_witness:
  "encode white [0x41] [0x61] = Some encoded_A
   \<and> 0 < imgWidth white \<and> 0 < imgHeight white
   \<and> length (data white) = imgWidth white * imgHeight white * 4
   \<and> length (data encoded_A) = length (data white)
   \<and> data encoded_A ! 3 = data white ! 3
   \<and> data encoded_A ! 830 AND 0xFE = data white ! 830 AND 0xFE"
proof -
  have h: "0 < imgWidth white" "0 < imgHeight white"
    "length (data white) = imgWidth white * imgHeight white * 4"
    by (simp_all add: white_def)
  have i: "(3::nat) < length (data white)" "(3::nat) mod 4 = 3" "(830::nat) < length (data white)"
    by (simp_all add: white_def)
  from encode_changes_only_selected_low_bits[OF white_A(1) h] i
  have "length (data encoded_A) = length (data white)
     \<and> data encoded_A ! 3 = data white ! 3
     \<and> data encoded_A ! 830 AND 0xFE = data white ! 830 AND 0xFE"
    by blast
  then show ?thesis using white_A(1) h by blast
qed

text \<open>
  Claim C10: for every count from 0 to the capacity \<open>width * height * 3\<close>, one call of
  \<^verbatim>\<open>generatePixelSequence(count)\<close> returns \<open>count\<close> distinct, well-formed positions.
  The code does not return for every such count. The state of the generator is a value
  of the logistic map with factor 3.9, which stays below 0.9751, so \<^verbatim>\<open>nextInt(width)\<close>
  never yields the last column of an image at least 41 pixels wide. In an image of 48
  by 1 pixels the capacity is 144, only 141 positions can be drawn, and the call for
  144 positions (what \<^verbatim>\<open>encode\<close> asks for a message of seven characters) does not
  return, whatever the key.
\<close>

theorem generatePixelSequence_144_of_48x1_never_returns:
  "144 \<le> width (new_ChaosPRNG k 48 1) * height (new_ChaosPRNG k 48 1) * 3
   \<and> generatePixelSequence 144 (new_ChaosPRNG k 48 1) = None"
proof
  show "144 \<le> width (new_ChaosPRNG k 48 1) * height (new_ChaosPRNG k 48 1) * 3"
    by (simp add: new_ChaosPRNG_def)
  show "generatePixelSequence 144 (new_ChaosPRNG k 48 1) = None"
    by (rule generatePixelSequence_last_column) (simp_all add: new_ChaosPRNG_def)
qed

end
